theory Spec2Isabelle
  imports Complex_Main "HOL-Library.Multiset" "HOL-Library.List_Lexorder" "HOL-Library.Char_ord"
begin

section \<open>Data input and output functions of \<^verbatim>\<open>embeddings/data_io.py\<close>\<close>

text \<open>
  The module holds three functions that shape data: \<^verbatim>\<open>load_data_from_npz\<close> reads an
  archive into five parallel lists, \<^verbatim>\<open>filter_data\<close> thins these lists out in up to four
  stages, and \<^verbatim>\<open>pad_sequences\<close> copies a batch of sequences into one zero-filled tensor.
  Each is embedded below as a HOL function. An exception is a value \<open>Inl e\<close>, where \<open>e\<close>
  names the exception class and the source line of the statement that raises it.
\<close>

datatype error = IndexError nat | KeyError nat | ValueError nat

subsection \<open>Arrays and slices\<close>

text \<open>
  A two-dimensional NumPy array is its list of rows together with its second shape
  component, which an array with no rows still has. \<open>len\<close> of an array and \<open>shape[0]\<close>
  are the number of rows.

  The tensor that \<^verbatim>\<open>pad_sequences\<close> fills has the dtype \<^verbatim>\<open>NP_DTYPE\<close>, which the module
  \<^verbatim>\<open>tflego\<close> defines and the sources do not include. Its entries are the type \<open>'a\<close>
  below and the entries of the sequences a type \<open>'b\<close>. An assignment into the tensor
  converts each entry to the tensor's dtype: the conversion is the parameter
  \<open>astype :: 'b \<Rightarrow> 'a\<close>.
\<close>

record 'a ndarray =
  shape1 :: nat
  rows :: "'a list list"

definition shape0 :: "'a ndarray \<Rightarrow> nat" where
  "shape0 a = length (rows a)"

text \<open>
  A slice bound \<open>i\<close> of a sequence of length \<open>n\<close>: a negative bound counts from the end,
  every bound is clipped to \<open>[0, n]\<close>, and an omitted bound (\<open>None\<close>) takes the default \<open>d\<close>.
\<close>

definition slice_index :: "nat \<Rightarrow> nat \<Rightarrow> int option \<Rightarrow> nat" where
  "slice_index n d b =
     (case b of
        None \<Rightarrow> d
      | Some i \<Rightarrow> if i < 0 then nat (max 0 (int n + i)) else min n (nat i))"

definition py_slice :: "int option \<Rightarrow> int option \<Rightarrow> 'b list \<Rightarrow> 'b list" where
  "py_slice start stop xs =
     (let a = slice_index (length xs) 0 start;
          b = slice_index (length xs) (length xs) stop
      in take (b - a) (drop a xs))"

text \<open>
  Assignment of an array to a block of \<open>r\<close> rows and \<open>c\<close> columns follows NumPy's
  broadcasting: each dimension of the source equals the block's or is 1 (and is then
  repeated); any other shape raises \<^verbatim>\<open>ValueError\<close>.
\<close>

definition broadcast_to :: "nat \<Rightarrow> nat \<Rightarrow> nat \<Rightarrow> 'a ndarray \<Rightarrow> error + 'a list list" where
  "broadcast_to line r c src =
     (if (shape0 src = r \<or> shape0 src = 1) \<and> (shape1 src = c \<or> shape1 src = 1) then
        (let wide = (if shape1 src = c then rows src
                     else map (\<lambda>row. replicate c (hd row)) (rows src))
         in Inr (if shape0 src = r then wide else replicate r (hd wide)))
      else Inl (ValueError line))"

text \<open>
  \<^verbatim>\<open>tgt[start:stop, :] = src\<close> for a block \<open>tgt\<close> of the tensor with \<open>c\<close> columns: the
  source is broadcast and each of its entries converted to the tensor's dtype.
\<close>

definition assign_rows ::
  "('b \<Rightarrow> 'a) \<Rightarrow> nat \<Rightarrow> nat \<Rightarrow> int option \<Rightarrow> int option \<Rightarrow> 'b ndarray \<Rightarrow> 'a list list
     \<Rightarrow> error + 'a list list"
where
  "assign_rows astype line c start stop src tgt =
     (let a = slice_index (length tgt) 0 start;
          b = slice_index (length tgt) (length tgt) stop
      in case broadcast_to line (b - a) c src of
           Inl e \<Rightarrow> Inl e
         | Inr new \<Rightarrow> Inr (take a tgt @ map (map astype) new @ drop (a + (b - a)) tgt))"

text \<open>\<^verbatim>\<open>row[start:stop] = v\<close> for a scalar \<open>v\<close>.\<close>

definition fill_slice :: "int option \<Rightarrow> int option \<Rightarrow> 'b \<Rightarrow> 'b list \<Rightarrow> 'b list" where
  "fill_slice start stop v row =
     (let a = slice_index (length row) 0 start;
          b = slice_index (length row) (length row) stop
      in take a row @ replicate (b - a) v @ drop (a + (b - a)) row)"

text \<open>
  \<^verbatim>\<open>np.round\<close> rounds to the nearest integer and a midpoint to the even neighbour. The
  quotient \<^verbatim>\<open>(n_padded - len) / 2.\<close> is a multiple of one half, which a float holds
  exactly, so it is taken as a real number.
\<close>

definition np_round :: "real \<Rightarrow> int" where
  "np_round v =
     (let f = \<lfloor>v\<rfloor>; d = v - of_int f
      in if d < 1 / 2 then f
         else if 1 / 2 < d then f + 1
         else if even f then f else f + 1)"

subsection \<open>\<^verbatim>\<open>pad_sequences\<close> (lines 189 to 218)\<close>

text \<open>
  The loop's variables are the tensor \<^verbatim>\<open>padded_x\<close>, the mask \<^verbatim>\<open>mask_x\<close>, which exists
  only when \<^verbatim>\<open>return_mask\<close> is set, and the list \<^verbatim>\<open>lengths\<close>.
\<close>

type_synonym 'a pad_state = "'a list list list \<times> 'a list list option \<times> int list"

text \<open>
  One iteration of the loop of line 195, for item \<open>i_data\<close> and sequence \<open>cur_x\<close>;
  \<open>d\<close> is the tensor's feature dimension.
\<close>

definition pad_step ::
  "('b \<Rightarrow> 'a) \<Rightarrow> int \<Rightarrow> nat \<Rightarrow> bool \<Rightarrow> nat \<Rightarrow> 'b ndarray \<Rightarrow> 'a::semiring_1 pad_state
     \<Rightarrow> error + 'a pad_state"
where
  "pad_step astype n_padded d center_padded i_data cur_x s =
     (case s of (padded_x, mask_x, lengths) \<Rightarrow>
      let len = int (shape0 cur_x) in
      if center_padded then
        (let padding = np_round (of_int (n_padded - len) / 2) in
         if len \<le> n_padded then
           (case assign_rows astype 200 d (Some padding) (Some (padding + len)) cur_x
                   (padded_x ! i_data) of
              Inl e \<Rightarrow> Inl e
            | Inr block \<Rightarrow>
                Inr (padded_x[i_data := block],
                     map_option (\<lambda>m. m[i_data :=
                        fill_slice (Some padding) (Some (padding + len)) 1 (m ! i_data)]) mask_x,
                     lengths @ [min len n_padded]))
         else
           (case assign_rows astype 205 d None None
                   \<lparr>shape1 = shape1 cur_x,
                    rows = py_slice (Some (- padding)) (Some (- padding + n_padded)) (rows cur_x)\<rparr>
                   (padded_x ! i_data) of
              Inl e \<Rightarrow> Inl e
            | Inr block \<Rightarrow>
                Inr (padded_x[i_data := block],
                     map_option (\<lambda>m. m[i_data := fill_slice None None 1 (m ! i_data)]) mask_x,
                     lengths @ [min len n_padded])))
      else
        (let len = min len n_padded in
         case assign_rows astype 211 d None (Some len)
                 \<lparr>shape1 = shape1 cur_x, rows = py_slice None (Some len) (rows cur_x)\<rparr>
                 (padded_x ! i_data) of
           Inl e \<Rightarrow> Inl e
         | Inr block \<Rightarrow>
             Inr (padded_x[i_data := block],
                  map_option (\<lambda>m. m[i_data := fill_slice None (Some len) 1 (m ! i_data)]) mask_x,
                  lengths @ [len])))"

text \<open>The loop over \<^verbatim>\<open>enumerate(x)\<close>; the first exception ends it.\<close>

fun pad_loop ::
  "('b \<Rightarrow> 'a) \<Rightarrow> int \<Rightarrow> nat \<Rightarrow> bool \<Rightarrow> nat \<Rightarrow> 'b ndarray list \<Rightarrow> 'a::semiring_1 pad_state
     \<Rightarrow> error + 'a pad_state"
where
  "pad_loop astype n_padded d center_padded i_data [] s = Inr s"
| "pad_loop astype n_padded d center_padded i_data (cur_x # rest) s =
     (case pad_step astype n_padded d center_padded i_data cur_x s of
        Inl e \<Rightarrow> Inl e
      | Inr s' \<Rightarrow> pad_loop astype n_padded d center_padded (Suc i_data) rest s')"

text \<open>
  Line 191 reads \<^verbatim>\<open>x[0]\<close>, which raises \<^verbatim>\<open>IndexError\<close> on an empty batch, and then
  \<^verbatim>\<open>np.zeros\<close> raises \<^verbatim>\<open>ValueError\<close> on a negative dimension. The mask is returned only
  when it was asked for. The zeros of \<^verbatim>\<open>np.zeros\<close> and the 1 stored in the mask are the
  zero and the one of the tensor's dtype.
\<close>

definition pad_sequences ::
  "('b \<Rightarrow> 'a) \<Rightarrow> 'b ndarray list \<Rightarrow> int \<Rightarrow> bool \<Rightarrow> bool
     \<Rightarrow> error + ('a::semiring_1 list list list \<times> int list \<times> 'a list list option)"
where
  "pad_sequences astype x n_padded center_padded return_mask =
     (case x of
        [] \<Rightarrow> Inl (IndexError 191)
      | x0 # _ \<Rightarrow>
          if n_padded < 0 then Inl (ValueError 191)
          else
            (let d = shape1 x0;
                 t = nat n_padded;
                 padded_x = replicate (length x) (replicate t (replicate d 0));
                 mask_x = (if return_mask then Some (replicate (length x) (replicate t 0))
                           else None)
             in case pad_loop astype n_padded d center_padded 0 x (padded_x, mask_x, []) of
                  Inl e \<Rightarrow> Inl e
                | Inr (padded_x, mask_x, lengths) \<Rightarrow> Inr (padded_x, lengths, mask_x)))"

subsection \<open>\<^verbatim>\<open>load_data_from_npz\<close> (lines 21 to 45)\<close>

text \<open>
  \<^verbatim>\<open>str.split(sep)\<close> cuts a string at every separator and keeps empty segments, so the
  result has one segment more than the string has separators.
\<close>

fun split_on :: "char \<Rightarrow> string \<Rightarrow> string list" where
  "split_on sep [] = [[]]"
| "split_on sep (ch # rest) =
     (if ch = sep then [] # split_on sep rest
      else (case split_on sep rest of
              seg # segs \<Rightarrow> (ch # seg) # segs
            | [] \<Rightarrow> [[ch]]))"

text \<open>\<^verbatim>\<open>xs[i]\<close> for a list and an index that is not negative.\<close>

definition list_item :: "nat \<Rightarrow> 'b list \<Rightarrow> nat \<Rightarrow> error + 'b" where
  "list_item line xs i = (if i < length xs then Inr (xs ! i) else Inl (IndexError line))"

text \<open>
  The opened archive is the list of its members, name and array, with distinct names.
  Iterating it yields the names and \<^verbatim>\<open>npz[utt_key]\<close> looks one up. \<^verbatim>\<open>sorted\<close> orders
  strings by code point, which is the lexicographic order of their bytes in UTF-8.
  The loop's state is \<^verbatim>\<open>(x, labels, speakers, lengths, keys, n_items)\<close>.
\<close>

type_synonym 'a archive = "(string \<times> 'a ndarray) list"

type_synonym 'a load_state =
  "'a ndarray list \<times> string list \<times> string list \<times> int list \<times> string list \<times> nat"

fun load_loop ::
  "'a archive \<Rightarrow> int option \<Rightarrow> string list \<Rightarrow> 'a load_state \<Rightarrow> error + 'a load_state"
where
  "load_loop npz min_length [] st = Inr st"
| "load_loop npz min_length (utt_key # rest) (x, labels, speakers, lengths, keys, n_items) =
     (case map_of npz utt_key of
        None \<Rightarrow> Inl (KeyError 31)
      | Some cur_x \<Rightarrow>
          if (case min_length of None \<Rightarrow> False | Some m \<Rightarrow> int (shape0 cur_x) \<le> m)
          then load_loop npz min_length rest (x, labels, speakers, lengths, keys, n_items)
          else
            (let utt_key_split = split_on (CHR ''_'') utt_key in
             case list_item 37 utt_key_split 0 of
               Inl e \<Rightarrow> Inl e
             | Inr word \<Rightarrow>
                 (case list_item 38 utt_key_split 1 of
                    Inl e \<Rightarrow> Inl e
                  | Inr speaker \<Rightarrow>
                      load_loop npz min_length rest
                        (x @ [cur_x], labels @ [word], speakers @ [speaker],
                         lengths @ [int (shape0 cur_x)], keys @ [utt_key], n_items + 1))))"

text \<open>Line 44 prints \<^verbatim>\<open>x[0].shape\<close> before the five lists are returned.\<close>

definition load_data_from_npz ::
  "'a archive \<Rightarrow> int option
     \<Rightarrow> error + ('a ndarray list \<times> string list \<times> int list \<times> string list \<times> string list)"
where
  "load_data_from_npz npz min_length =
     (case load_loop npz min_length (sort (map fst npz)) ([], [], [], [], [], 0) of
        Inl e \<Rightarrow> Inl e
      | Inr (x, labels, speakers, lengths, keys, n_items) \<Rightarrow>
          (case list_item 44 x 0 of
             Inl e \<Rightarrow> Inl e
           | Inr first \<Rightarrow> Inr (x, labels, lengths, keys, speakers)))"

subsection \<open>\<^verbatim>\<open>filter_data\<close> (lines 48 to 180)\<close>

text \<open>
  \<^verbatim>\<open>collections.Counter\<close> is a dictionary from elements to counts that keeps its keys in
  the order of their first insertion. A key that is absent reads as 0.
  \<^verbatim>\<open>most_common(n)\<close> is the first \<open>n\<close> items of the stable sort by descending count, so
  that equal counts stay in insertion order, and is empty for \<open>n \<le> 0\<close>.
\<close>

type_synonym 'k counter = "('k \<times> nat) list"

fun counter_incr :: "'k \<Rightarrow> 'k counter \<Rightarrow> 'k counter" where
  "counter_incr k [] = [(k, 1)]"
| "counter_incr k ((k', n) # rest) =
     (if k = k' then (k', Suc n) # rest else (k', n) # counter_incr k rest)"

definition Counter :: "'k list \<Rightarrow> 'k counter" where
  "Counter xs = fold counter_incr xs []"

definition counter_get :: "'k counter \<Rightarrow> 'k \<Rightarrow> nat" where
  "counter_get c k = (case map_of c k of None \<Rightarrow> 0 | Some n \<Rightarrow> n)"

definition most_common :: "int \<Rightarrow> 'k counter \<Rightarrow> ('k \<times> nat) list" where
  "most_common n c = take (nat n) (sort_key (\<lambda>item. - int (snd item)) c)"

text \<open>
  The module \<^verbatim>\<open>random\<close> of the standard library is a parameter: \<open>seed\<close> gives the
  generator's state after \<^verbatim>\<open>random.seed(a)\<close>, and \<open>shuffle\<close> the shuffled list together
  with the state after \<^verbatim>\<open>random.shuffle\<close>. The state is global to the process, so it is
  an argument and a result of every function that uses the module.
\<close>

record 'g random_module =
  seed :: "int \<Rightarrow> 'g"
  shuffle :: "'g \<Rightarrow> nat list \<Rightarrow> nat list \<times> 'g"

text \<open>The five parallel lists \<^verbatim>\<open>(data, labels, lengths, keys, speakers)\<close>.\<close>

type_synonym ('d, 'l, 'n, 'k, 's) lists =
  "'d list \<times> 'l list \<times> 'n list \<times> 'k list \<times> 's list"

text \<open>
  The five \<^verbatim>\<open>append\<close> statements that every stage repeats, the first of them on line
  \<open>line\<close>. An index beyond the end of a list raises \<^verbatim>\<open>IndexError\<close>.
\<close>

definition append_entry ::
  "nat \<Rightarrow> ('d, 'l, 'n, 'k, 's) lists \<Rightarrow> nat \<Rightarrow> ('d, 'l, 'n, 'k, 's) lists
     \<Rightarrow> error + ('d, 'l, 'n, 'k, 's) lists"
where
  "append_entry line src i acc =
     (case src of (data, labels, lengths, keys, speakers) \<Rightarrow>
      case acc of
        (filtered_data, filtered_labels, filtered_lengths, filtered_keys, filtered_speakers) \<Rightarrow>
      if length data \<le> i then Inl (IndexError line)
      else if length labels \<le> i then Inl (IndexError (line + 1))
      else if length lengths \<le> i then Inl (IndexError (line + 2))
      else if length keys \<le> i then Inl (IndexError (line + 3))
      else if length speakers \<le> i then Inl (IndexError (line + 4))
      else Inr (filtered_data @ [data ! i], filtered_labels @ [labels ! i],
                filtered_lengths @ [lengths ! i], filtered_keys @ [keys ! i],
                filtered_speakers @ [speakers ! i]))"

text \<open>
  The loop of lines 79 to 85 and, with the same text, of lines 136 to 142: keep the
  entries whose label is among \<open>types\<close>. The test is on line \<open>line\<close>.
\<close>

fun keep_types ::
  "nat \<Rightarrow> 'l list \<Rightarrow> ('d, 'l, 'n, 'k, 's) lists \<Rightarrow> nat list \<Rightarrow> ('d, 'l, 'n, 'k, 's) lists
     \<Rightarrow> error + ('d, 'l, 'n, 'k, 's) lists"
where
  "keep_types line types src [] acc = Inr acc"
| "keep_types line types src (i # rest) acc =
     (case src of (data, labels, lengths, keys, speakers) \<Rightarrow>
      if length labels \<le> i then Inl (IndexError line)
      else if labels ! i \<in> set types then
        (case append_entry (line + 1) src i acc of
           Inl e \<Rightarrow> Inl e
         | Inr acc' \<Rightarrow> keep_types line types src rest acc')
      else keep_types line types src rest acc)"

text \<open>The loop of lines 106 to 111 over \<^verbatim>\<open>indices[:n_max_tokens]\<close>.\<close>

fun take_entries ::
  "('d, 'l, 'n, 'k, 's) lists \<Rightarrow> nat list \<Rightarrow> ('d, 'l, 'n, 'k, 's) lists
     \<Rightarrow> error + ('d, 'l, 'n, 'k, 's) lists"
where
  "take_entries src [] acc = Inr acc"
| "take_entries src (i # rest) acc =
     (case append_entry 107 src i acc of
        Inl e \<Rightarrow> Inl e
      | Inr acc' \<Rightarrow> take_entries src rest acc')"

text \<open>The loop of lines 163 to 170 with its counter \<^verbatim>\<open>tokens_per_type\<close>.\<close>

fun cap_per_type ::
  "int \<Rightarrow> ('d, 'l, 'n, 'k, 's) lists \<Rightarrow> nat list \<Rightarrow> 'l counter \<Rightarrow> ('d, 'l, 'n, 'k, 's) lists
     \<Rightarrow> error + ('d, 'l, 'n, 'k, 's) lists"
where
  "cap_per_type n_max_tokens_per_type src [] tokens_per_type acc = Inr acc"
| "cap_per_type n_max_tokens_per_type src (i # rest) tokens_per_type acc =
     (case src of (data, labels, lengths, keys, speakers) \<Rightarrow>
      if length labels \<le> i then Inl (IndexError 164)
      else if int (counter_get tokens_per_type (labels ! i)) < n_max_tokens_per_type then
        (case append_entry 165 src i acc of
           Inl e \<Rightarrow> Inl e
         | Inr acc' \<Rightarrow>
             cap_per_type n_max_tokens_per_type src rest
               (counter_incr (labels ! i) tokens_per_type) acc')
      else cap_per_type n_max_tokens_per_type src rest tokens_per_type acc)"

text \<open>The four blocks of the function, each skipped when its argument is \<^verbatim>\<open>None\<close>.\<close>

definition stage_max_types ::
  "int option \<Rightarrow> ('d, 'l, 'n, 'k, 's) lists \<Rightarrow> error + ('d, 'l, 'n, 'k, 's) lists"
where
  "stage_max_types n_max_types src =
     (case n_max_types of
        None \<Rightarrow> Inr src
      | Some n \<Rightarrow>
          (case src of (data, labels, lengths, keys, speakers) \<Rightarrow>
           let types = map fst (most_common n (Counter labels))
           in keep_types 80 types src [0..<length data] ([], [], [], [], [])))"

definition stage_max_tokens ::
  "'g random_module \<Rightarrow> int option \<Rightarrow> ('d, 'l, 'n, 'k, 's) lists \<times> 'g
     \<Rightarrow> error + (('d, 'l, 'n, 'k, 's) lists \<times> 'g)"
where
  "stage_max_tokens R n_max_tokens sg =
     (case n_max_tokens of
        None \<Rightarrow> Inr sg
      | Some n \<Rightarrow>
          (case sg of (src, g) \<Rightarrow>
           case src of (data, labels, lengths, keys, speakers) \<Rightarrow>
           case shuffle R g [0..<length data] of (indices, g') \<Rightarrow>
           case take_entries src (py_slice None (Some n) indices) ([], [], [], [], []) of
             Inl e \<Rightarrow> Inl e
           | Inr out \<Rightarrow> Inr (out, g')))"

definition stage_min_tokens_per_type ::
  "int option \<Rightarrow> ('d, 'l, 'n, 'k, 's) lists \<Rightarrow> error + ('d, 'l, 'n, 'k, 's) lists"
where
  "stage_min_tokens_per_type n_min_tokens_per_type src =
     (case n_min_tokens_per_type of
        None \<Rightarrow> Inr src
      | Some n \<Rightarrow>
          (case src of (data, labels, lengths, keys, speakers) \<Rightarrow>
           let counts = Counter labels;
               types = map fst (filter (\<lambda>item. n \<le> int (snd item)) counts)
           in keep_types 137 types src [0..<length data] ([], [], [], [], [])))"

definition stage_max_tokens_per_type ::
  "'g random_module \<Rightarrow> int option \<Rightarrow> ('d, 'l, 'n, 'k, 's) lists \<times> 'g
     \<Rightarrow> error + (('d, 'l, 'n, 'k, 's) lists \<times> 'g)"
where
  "stage_max_tokens_per_type R n_max_tokens_per_type sg =
     (case n_max_tokens_per_type of
        None \<Rightarrow> Inr sg
      | Some n \<Rightarrow>
          (case sg of (src, g) \<Rightarrow>
           case src of (data, labels, lengths, keys, speakers) \<Rightarrow>
           case shuffle R g [0..<length data] of (indices, g') \<Rightarrow>
           case cap_per_type n src indices [] ([], [], [], [], []) of
             Inl e \<Rightarrow> Inl e
           | Inr out \<Rightarrow> Inr (out, g')))"

text \<open>
  \<^verbatim>\<open>filter_data\<close> seeds the generator on line 64, whatever state \<open>g0\<close> it was in, and runs
  the blocks in the order of the source. It returns the five lists; the generator's
  final state is the second component.
\<close>

definition filter_data ::
  "'g random_module \<Rightarrow> 'g \<Rightarrow> ('d, 'l, 'n, 'k, 's) lists
     \<Rightarrow> int option \<Rightarrow> int option \<Rightarrow> int option \<Rightarrow> int option
     \<Rightarrow> error + (('d, 'l, 'n, 'k, 's) lists \<times> 'g)"
where
  "filter_data R g0 src n_min_tokens_per_type n_max_types n_max_tokens n_max_tokens_per_type =
     (let g = seed R 1 in
      case stage_max_types n_max_types src of
        Inl e \<Rightarrow> Inl e
      | Inr src1 \<Rightarrow>
          (case stage_max_tokens R n_max_tokens (src1, g) of
             Inl e \<Rightarrow> Inl e
           | Inr (src2, g2) \<Rightarrow>
               (case stage_min_tokens_per_type n_min_tokens_per_type src2 of
                  Inl e \<Rightarrow> Inl e
                | Inr src3 \<Rightarrow> stage_max_tokens_per_type R n_max_tokens_per_type (src3, g2))))"

section \<open>Notions for the statements\<close>

subsection \<open>Padding\<close>

text \<open>The offset of centred padding for target length \<open>t\<close> and a sequence of \<open>l\<close> rows, as line 198 computes it.\<close>

definition centre_offset :: "int \<Rightarrow> nat \<Rightarrow> int" where
  "centre_offset t l = np_round (of_int (t - int l) / 2)"

text \<open>The rows of an array as broadcasting to \<open>d\<close> columns leaves them.\<close>

definition widen :: "nat \<Rightarrow> 'a ndarray \<Rightarrow> 'a list list" where
  "widen d a = (if shape1 a = d then rows a else map (\<lambda>row. replicate d (hd row)) (rows a))"

text \<open>The second shape component that an assignment into a block of \<open>d\<close> columns accepts.\<close>

definition item_ok :: "nat \<Rightarrow> 'a ndarray \<Rightarrow> bool" where
  "item_ok d a = (shape1 a = d \<or> shape1 a = 1)"

text \<open>The line of the assignment that an iteration reaches.\<close>

definition item_line :: "int \<Rightarrow> bool \<Rightarrow> 'a ndarray \<Rightarrow> nat" where
  "item_line t c a = (if c then if int (shape0 a) \<le> t then 200 else 205 else 211)"

text \<open>What one iteration leaves in its item of the tensor, written out with \<open>take\<close>, \<open>drop\<close> and \<open>replicate\<close>.\<close>

definition item_block ::
  "('b \<Rightarrow> 'a) \<Rightarrow> int \<Rightarrow> nat \<Rightarrow> bool \<Rightarrow> 'b ndarray \<Rightarrow> 'a::semiring_1 list list" where
  "item_block astype t d c a =
     (let l = shape0 a; z = replicate d 0; n = nat t in
      if c then
        if int l \<le> t then
          replicate (nat (centre_offset t l)) z @ map (map astype) (widen d a)
            @ replicate (n - (nat (centre_offset t l) + l)) z
        else map (map astype)
               (widen d \<lparr>shape1 = shape1 a,
                         rows = take n (drop (nat (- centre_offset t l)) (rows a))\<rparr>)
      else map (map astype) (widen d \<lparr>shape1 = shape1 a, rows = take (min l n) (rows a)\<rparr>)
             @ replicate (n - min l n) z)"

text \<open>What one iteration leaves in its row of the mask.\<close>

definition item_mask :: "int \<Rightarrow> bool \<Rightarrow> 'b ndarray \<Rightarrow> 'a::semiring_1 list" where
  "item_mask t c a =
     (let l = shape0 a; n = nat t in
      if c then
        if int l \<le> t then
          replicate (nat (centre_offset t l)) 0 @ replicate l 1
            @ replicate (n - (nat (centre_offset t l) + l)) 0
        else replicate n 1
      else replicate (min l n) 1 @ replicate (n - min l n) 0)"

text \<open>The loop invariant: the items from \<open>i\<close> on still hold zeros.\<close>

definition pad_inv :: "int \<Rightarrow> nat \<Rightarrow> nat \<Rightarrow> nat \<Rightarrow> 'a::semiring_1 pad_state \<Rightarrow> bool" where
  "pad_inv t d n i s =
     (case s of (P, M, Ls) \<Rightarrow>
      length P = n \<and>
      (\<forall>j. i \<le> j \<and> j < n \<longrightarrow> P ! j = replicate (nat t) (replicate d 0)) \<and>
      (\<forall>m. M = Some m \<longrightarrow>
         length m = n \<and> (\<forall>j. i \<le> j \<and> j < n \<longrightarrow> m ! j = replicate (nat t) 0)))"

text \<open>
  In the spec's words: \<open>r\<close> is \<open>v\<close> rounded half to even when \<open>r\<close> is an integer nearest to
  \<open>v\<close> and, where two integers are equally near, the even one.
\<close>

definition rounds_half_even :: "real \<Rightarrow> int \<Rightarrow> bool" where
  "rounds_half_even v r = (\<bar>v - of_int r\<bar> \<le> 1 / 2 \<and> (\<bar>v - of_int r\<bar> = 1 / 2 \<longrightarrow> even r))"

text \<open>
  An instance of the conversion, for the examples: an integer stored in a binary
  floating-point format whose significand has \<open>p\<close> bits (24 in NumPy's \<^verbatim>\<open>float32\<close>), for a
  magnitude within the format's range. The integer is rounded to \<open>p\<close> significant bits, a
  tie to the even significand; an integer of at most \<open>p\<close> bits is stored as it is.
\<close>

fun bit_length :: "nat \<Rightarrow> nat" where
  "bit_length n = (if n = 0 then 0 else Suc (bit_length (n div 2)))"

definition significand_round :: "nat \<Rightarrow> int \<Rightarrow> int" where
  "significand_round p n =
     (let m = nat \<bar>n\<bar>;
          e = bit_length m - p;
          q = m div 2 ^ e;
          r = m mod 2 ^ e;
          q' = (if 2 * r < 2 ^ e then q
                else if 2 ^ e < 2 * r then q + 1
                else if even q then q else q + 1)
      in sgn n * int (q' * 2 ^ e))"

subsection \<open>Loading\<close>

text \<open>Whether \<^verbatim>\<open>load_data_from_npz\<close> keeps the member named \<open>k\<close>.\<close>

definition retained :: "'a archive \<Rightarrow> int option \<Rightarrow> string \<Rightarrow> bool" where
  "retained npz min_length k =
     (case map_of npz k of
        None \<Rightarrow> False
      | Some cur_x \<Rightarrow> (case min_length of None \<Rightarrow> True | Some m \<Rightarrow> m < int (shape0 cur_x)))"

text \<open>The names of the members that are kept, in sorted order.\<close>

definition retained_keys :: "'a archive \<Rightarrow> int option \<Rightarrow> string list" where
  "retained_keys npz min_length = filter (retained npz min_length) (sort (map fst npz))"

subsection \<open>Filtering\<close>

text \<open>The second of the five lists.\<close>

definition labels_of :: "('d, 'l, 'n, 'k, 's) lists \<Rightarrow> 'l list" where
  "labels_of src = fst (snd src)"

text \<open>A dataset: five lists of one length \<open>n\<close>.\<close>

definition eqlen :: "('d, 'l, 'n, 'k, 's) lists \<Rightarrow> nat \<Rightarrow> bool" where
  "eqlen src n =
     (case src of (data, labels, lengths, keys, speakers) \<Rightarrow>
      length data = n \<and> length labels = n \<and> length lengths = n \<and> length keys = n \<and>
      length speakers = n)"

text \<open>The entries at the positions \<open>idxs\<close>, in that order, in each of the five lists.\<close>

definition pick :: "('d, 'l, 'n, 'k, 's) lists \<Rightarrow> nat list \<Rightarrow> ('d, 'l, 'n, 'k, 's) lists" where
  "pick src idxs =
     (case src of (data, labels, lengths, keys, speakers) \<Rightarrow>
      (map (\<lambda>i. data ! i) idxs, map (\<lambda>i. labels ! i) idxs, map (\<lambda>i. lengths ! i) idxs,
       map (\<lambda>i. keys ! i) idxs, map (\<lambda>i. speakers ! i) idxs))"

text \<open>
  \<open>out\<close> is a selection of \<open>src\<close>: its entries are entries of \<open>src\<close> at distinct positions,
  the same position in all five lists.
\<close>

definition selection_of ::
  "('d, 'l, 'n, 'k, 's) lists \<Rightarrow> ('d, 'l, 'n, 'k, 's) lists \<Rightarrow> bool" where
  "selection_of src out =
     (\<exists>idxs. distinct idxs \<and> set idxs \<subseteq> {..<length (fst src)} \<and> out = pick src idxs)"

text \<open>What the standard library promises of \<^verbatim>\<open>random.shuffle\<close>: it permutes the list.\<close>

definition shuffle_ok :: "'g random_module \<Rightarrow> bool" where
  "shuffle_ok R = (\<forall>g xs. mset (fst (shuffle R g xs)) = mset xs)"

text \<open>The positions that the loop of lines 163 to 170 admits.\<close>

fun admitted :: "int \<Rightarrow> 'l list \<Rightarrow> nat list \<Rightarrow> 'l counter \<Rightarrow> nat list" where
  "admitted n labels [] c = []"
| "admitted n labels (i # rest) c =
     (if int (counter_get c (labels ! i)) < n
      then i # admitted n labels rest (counter_incr (labels ! i) c)
      else admitted n labels rest c)"

text \<open>The labels that \<^verbatim>\<open>n_max_types = k\<close> keeps.\<close>

definition top_types :: "int \<Rightarrow> 'l list \<Rightarrow> 'l list" where
  "top_types k labels = map fst (most_common k (Counter labels))"

section \<open>Properties of \<^verbatim>\<open>pad_sequences\<close>\<close>

subsection \<open>Rounding and the offset\<close>

text \<open>On a multiple of one half \<^verbatim>\<open>np.round\<close> is integer arithmetic.\<close>

lemma np_round_half:
  "np_round (of_int d / 2) =
     (if even d then d div 2 else if even (d div 2) then d div 2 else d div 2 + 1)"
proof (cases "even d")
  case True
  then obtain k where d: "d = 2 * k" by (auto elim: evenE)
  have "(of_int d :: real) / 2 = of_int k" by (simp add: d)
  then show ?thesis using True by (simp add: np_round_def d)
next
  case False
  then obtain k where d: "d = 2 * k + 1" by (auto elim: oddE)
  have v: "(of_int d :: real) / 2 = of_int k + 1 / 2" by (simp add: d add_divide_distrib)
  have f: "\<lfloor>of_int k + (1::real) / 2\<rfloor> = k" by linarith
  have k: "d div 2 = k" by (simp add: d)
  show ?thesis using False unfolding v np_round_def Let_def f k by simp
qed

lemma np_round_half_bounds:
  fixes d :: int
  defines "r \<equiv> np_round (of_int d / 2)"
  shows "\<bar>d - 2 * r\<bar> \<le> 1" and "0 \<le> d \<Longrightarrow> 0 \<le> r \<and> r \<le> d"
    and "d < 0 \<Longrightarrow> d \<le> r \<and> r \<le> 0"
proof -
  have r: "r = (if even d then d div 2 else if even (d div 2) then d div 2 else d div 2 + 1)"
    unfolding r_def by (rule np_round_half)
  show "\<bar>d - 2 * r\<bar> \<le> 1" unfolding r by presburger
  show "0 \<le> d \<Longrightarrow> 0 \<le> r \<and> r \<le> d" unfolding r by presburger
  show "d < 0 \<Longrightarrow> d \<le> r \<and> r \<le> 0" unfolding r by presburger
qed

lemma centre_offset_pad:
  assumes "int l \<le> t"
  shows "0 \<le> centre_offset t l" and "centre_offset t l + int l \<le> t"
  using assms np_round_half_bounds(2) [of "t - int l"] unfolding centre_offset_def by auto

lemma centre_offset_crop:
  assumes "t < int l"
  shows "centre_offset t l \<le> 0" and "- centre_offset t l + t \<le> int l"
  using assms np_round_half_bounds(3) [of "t - int l"] unfolding centre_offset_def by auto


subsection \<open>Slices and assignments within range\<close>

lemma length_widen [simp]: "length (widen d a) = shape0 a"
  by (simp add: widen_def shape0_def)

lemma widen_same [simp]: "shape1 a = d \<Longrightarrow> widen d a = rows a"
  by (simp add: widen_def)

lemma broadcast_to_rows:
  "shape0 src = r \<Longrightarrow>
   broadcast_to line r c src =
     (if shape1 src = c \<or> shape1 src = 1 then Inr (widen c src) else Inl (ValueError line))"
  by (simp add: broadcast_to_def widen_def)

lemma assign_rows_window:
  assumes "a + shape0 src \<le> length tgt"
  shows "assign_rows astype line c (Some (int a)) (Some (int a + int (shape0 src))) src tgt =
     (if shape1 src = c \<or> shape1 src = 1
      then Inr (take a tgt @ map (map astype) (widen c src) @ drop (a + shape0 src) tgt)
      else Inl (ValueError line))"
proof -
  have a: "slice_index (length tgt) 0 (Some (int a)) = a"
    using assms by (simp add: slice_index_def)
  have b: "slice_index (length tgt) (length tgt) (Some (int a + int (shape0 src))) = a + shape0 src"
    using assms by (simp add: slice_index_def nat_add_distrib)
  show ?thesis
    unfolding assign_rows_def Let_def a b by (simp add: broadcast_to_rows)
qed

lemma assign_rows_prefix:
  assumes "shape0 src \<le> length tgt"
  shows "assign_rows astype line c None (Some (int (shape0 src))) src tgt =
     (if shape1 src = c \<or> shape1 src = 1
      then Inr (map (map astype) (widen c src) @ drop (shape0 src) tgt)
      else Inl (ValueError line))"
proof -
  have b: "slice_index (length tgt) (length tgt) (Some (int (shape0 src))) = shape0 src"
    using assms by (simp add: slice_index_def)
  show ?thesis
    unfolding assign_rows_def Let_def b by (simp add: broadcast_to_rows slice_index_def)
qed

lemma assign_rows_all:
  assumes "shape0 src = length tgt"
  shows "assign_rows astype line c None None src tgt =
     (if shape1 src = c \<or> shape1 src = 1 then Inr (map (map astype) (widen c src))
      else Inl (ValueError line))"
  using assms unfolding assign_rows_def Let_def by (simp add: broadcast_to_rows slice_index_def)

lemma fill_slice_window:
  assumes "a + l \<le> length row"
  shows "fill_slice (Some (int a)) (Some (int a + int l)) v row =
           take a row @ replicate l v @ drop (a + l) row"
proof -
  have a: "slice_index (length row) 0 (Some (int a)) = a"
    using assms by (simp add: slice_index_def)
  have b: "slice_index (length row) (length row) (Some (int a + int l)) = a + l"
    using assms by (simp add: slice_index_def nat_add_distrib)
  show ?thesis unfolding fill_slice_def Let_def a b by simp
qed

lemma fill_slice_prefix:
  assumes "l \<le> length row"
  shows "fill_slice None (Some (int l)) v row = replicate l v @ drop l row"
  using assms unfolding fill_slice_def Let_def by (simp add: slice_index_def)

lemma fill_slice_all: "fill_slice None None v row = replicate (length row) v"
  unfolding fill_slice_def Let_def by (simp add: slice_index_def)

lemma py_slice_window:
  assumes "a + t \<le> length xs"
  shows "py_slice (Some (int a)) (Some (int a + int t)) xs = take t (drop a xs)"
proof -
  have a: "slice_index (length xs) 0 (Some (int a)) = a"
    using assms by (simp add: slice_index_def)
  have b: "slice_index (length xs) (length xs) (Some (int a + int t)) = a + t"
    using assms by (simp add: slice_index_def nat_add_distrib)
  show ?thesis unfolding py_slice_def Let_def a b by simp
qed

lemma py_slice_prefix: "py_slice None (Some (int l)) xs = take l xs"
  unfolding py_slice_def Let_def by (simp add: slice_index_def min_def)

subsection \<open>The loop\<close>

text \<open>
  An iteration on an item that still holds zeros, for \<open>t \<ge> 0\<close>: it fails on a feature
  dimension that does not broadcast and otherwise stores the item in closed form.
\<close>

lemma pad_step_zero:
  fixes astype :: "'b \<Rightarrow> 'a::semiring_1"
  assumes t: "0 \<le> t"
    and blk: "P ! i = replicate (nat t) (replicate d 0)"
    and msk: "\<And>m. M = Some m \<Longrightarrow> m ! i = replicate (nat t) 0"
  shows "pad_step astype t d c i a (P, M, Ls) =
     (if item_ok d a then
        Inr (P[i := item_block astype t d c a],
             map_option (\<lambda>m. m[i := item_mask t c a]) M,
             Ls @ [min (int (shape0 a)) t])
      else Inl (ValueError (item_line t c a)))"
proof -
  let ?l = "shape0 a"
  let ?n = "nat t"
  let ?z = "replicate d (0::'a)"
  have mo: "map_option f M = map_option g M"
    if "\<And>m. M = Some m \<Longrightarrow> f m = g m" for f g :: "'a list list \<Rightarrow> 'a list list"
    using that by (cases M) auto
  show ?thesis
  proof (cases c)
    case False
    define k where "k = min ?l ?n"
    have k: "min (int ?l) t = int k" using t unfolding k_def min_def by (simp; linarith)
    let ?src = "\<lparr>shape1 = shape1 a, rows = py_slice None (Some (int k)) (rows a)\<rparr>"
    have s0: "shape0 ?src = k" by (simp add: shape0_def py_slice_prefix k_def)
    have ar: "assign_rows astype 211 d None (Some (int k)) ?src (replicate ?n ?z) =
        (if item_ok d a then Inr (map (map astype) (widen d ?src) @ replicate (?n - k) ?z) else Inl (ValueError 211))"
      using assign_rows_prefix [of ?src "replicate ?n ?z" astype 211 d] s0
      by (simp add: k_def item_ok_def)
    have fm: "fill_slice None (Some (int k)) 1 (replicate ?n (0::'a)) = replicate k 1 @ replicate (?n - k) 0"
      by (simp add: fill_slice_prefix k_def)
    show ?thesis
      using False unfolding pad_step_def Let_def prod.case k blk ar
      by (auto simp: item_block_def item_mask_def item_line_def py_slice_prefix k_def [symmetric]
            Let_def fm msk intro!: mo)
  next
    case True
    show ?thesis
    proof (cases "int ?l \<le> t")
      case le: True
      define off where "off = nat (centre_offset t ?l)"
      have off: "np_round (of_int (t - int ?l) / 2) = int off"
        using centre_offset_pad(1) [OF le] by (simp add: off_def centre_offset_def)
      have fit: "off + ?l \<le> ?n"
        using centre_offset_pad [OF le] t by (simp add: off_def)
      have ar: "assign_rows astype 200 d (Some (int off)) (Some (int off + int ?l)) a (replicate ?n ?z) =
        (if item_ok d a then Inr (replicate off ?z @ map (map astype) (widen d a) @ replicate (?n - (off + ?l)) ?z)
         else Inl (ValueError 200))"
        using assign_rows_window [of off a "replicate ?n ?z" astype 200 d] fit
        by (simp add: item_ok_def min_def)
      have fm: "fill_slice (Some (int off)) (Some (int off + int ?l)) 1 (replicate ?n (0::'a)) =
          replicate off 0 @ replicate ?l 1 @ replicate (?n - (off + ?l)) 0"
        using fill_slice_window [of off ?l "replicate ?n (0::'a)" 1] fit by (simp add: min_def)
      show ?thesis
        using True le unfolding pad_step_def Let_def prod.case off blk ar
        by (auto simp: item_block_def item_mask_def item_line_def off_def [symmetric]
              Let_def fm msk min_def intro!: mo)
    next
      case gt: False
      define cut where "cut = nat (- centre_offset t ?l)"
      have off: "- np_round (of_int (t - int ?l) / 2) = int cut"
        using centre_offset_crop(1) [of t ?l] gt by (simp add: cut_def centre_offset_def)
      have fit: "cut + ?n \<le> length (rows a)"
        using centre_offset_crop [of t ?l] gt t by (simp add: cut_def shape0_def)
      have tn: "t = int ?n" using t by simp
      have sl: "py_slice (Some (int cut)) (Some (int cut + t)) (rows a) = take ?n (drop cut (rows a))"
        using py_slice_window [OF fit] tn by simp
      let ?src = "\<lparr>shape1 = shape1 a, rows = take ?n (drop cut (rows a))\<rparr>"
      have s0: "shape0 ?src = ?n" using fit by (simp add: shape0_def)
      have ar: "assign_rows astype 205 d None None ?src (replicate ?n ?z) =
        (if item_ok d a then Inr (map (map astype) (widen d ?src)) else Inl (ValueError 205))"
        using assign_rows_all [of ?src "replicate ?n ?z" astype 205 d] s0 by (simp add: item_ok_def)
      show ?thesis
        using True gt unfolding pad_step_def Let_def prod.case off sl blk ar
        by (auto simp: item_block_def item_mask_def item_line_def cut_def [symmetric]
              Let_def fill_slice_all msk min_def intro!: mo)
    qed
  qed
qed

lemma take_Suc_update: "i < length xs \<Longrightarrow> take (Suc i) (xs[i := v]) = take i xs @ [v]"
  by (simp add: take_Suc_conv_app_nth)

lemma pad_loop_zero:
  fixes astype :: "'b \<Rightarrow> 'a::semiring_1"
  assumes "0 \<le> t" and "pad_inv t d n i (P, M, Ls)" and "i + length xs = n"
  shows "pad_loop astype t d c i xs (P, M, Ls) =
     (case find (\<lambda>a. \<not> item_ok d a) xs of
        Some a \<Rightarrow> Inl (ValueError (item_line t c a))
      | None \<Rightarrow>
          Inr (take i P @ map (item_block astype t d c) xs,
               map_option (\<lambda>m. take i m @ map (item_mask t c) xs) M,
               Ls @ map (\<lambda>a. min (int (shape0 a)) t) xs))"
  using assms(2,3)
proof (induction xs arbitrary: i P M Ls)
  case Nil
  then show ?case by (cases M) (auto simp: pad_inv_def)
next
  case (Cons a rest)
  have i: "i < n" using Cons.prems by simp
  have blk: "P ! i = replicate (nat t) (replicate d 0)"
    using Cons.prems(1) i by (simp add: pad_inv_def)
  have msk: "\<And>m. M = Some m \<Longrightarrow> m ! i = replicate (nat t) 0"
    using Cons.prems(1) i by (simp add: pad_inv_def)
  note step = pad_step_zero [OF assms(1) blk msk, where a = a and c = c and Ls = Ls]
  show ?case
  proof (cases "item_ok d a")
    case False
    then show ?thesis by (simp add: step)
  next
    case True
    have inv: "pad_inv t d n (Suc i) (P[i := item_block astype t d c a],
        map_option (\<lambda>m. m[i := item_mask t c a]) M, Ls @ [min (int (shape0 a)) t])"
      using Cons.prems(1) by (auto simp: pad_inv_def)
    have len: "Suc i + length rest = n" using Cons.prems(2) by simp
    have P: "take (Suc i) (P[i := item_block astype t d c a]) = take i P @ [item_block astype t d c a]"
      using Cons.prems(1) i by (simp add: pad_inv_def take_Suc_update)
    have M: "map_option (\<lambda>m. take (Suc i) m @ map (item_mask t c) rest)
               (map_option (\<lambda>m. m[i := item_mask t c a]) M) =
             map_option (\<lambda>m. take i m @ item_mask t c a # map (item_mask t c) rest) M"
      using Cons.prems(1) i by (cases M) (auto simp: pad_inv_def take_Suc_update)
    show ?thesis
      using True by (simp add: step Cons.IH [OF inv len] P M del: take_Suc_Cons split: option.splits)
  qed
qed

text \<open>The call in closed form, for a batch that is not empty and \<open>t \<ge> 0\<close>.\<close>

lemma pad_sequences_eq:
  fixes astype :: "'b \<Rightarrow> 'a::semiring_1"
  assumes "x \<noteq> []" and "0 \<le> t"
  shows "pad_sequences astype x t c m =
     (case find (\<lambda>a. \<not> item_ok (shape1 (hd x)) a) x of
        Some a \<Rightarrow> Inl (ValueError (item_line t c a))
      | None \<Rightarrow>
          Inr (map (item_block astype t (shape1 (hd x)) c) x,
               map (\<lambda>a. min (int (shape0 a)) t) x,
               if m then Some (map (item_mask t c) x) else None))"
proof -
  obtain x0 rest where x: "x = x0 # rest" using assms(1) by (cases x) auto
  let ?P = "replicate (length x) (replicate (nat t) (replicate (shape1 x0) (0::'a)))"
  let ?M = "if m then Some (replicate (length x) (replicate (nat t) (0::'a))) else None"
  have d: "shape1 x0 = shape1 (hd x)" by (simp add: x)
  have inv: "pad_inv t (shape1 x0) (length x) 0 (?P, ?M, [])" by (simp add: pad_inv_def)
  have "pad_sequences astype x t c m =
      (case pad_loop astype t (shape1 x0) c 0 x (?P, ?M, []) of Inl e \<Rightarrow> Inl e
       | Inr (padded_x, mask_x, lengths) \<Rightarrow> Inr (padded_x, lengths, mask_x))"
    using assms(2) unfolding pad_sequences_def by (simp add: Let_def x)
  also have "\<dots> = (case find (\<lambda>a. \<not> item_ok (shape1 x0) a) x of
        Some a \<Rightarrow> Inl (ValueError (item_line t c a))
      | None \<Rightarrow>
          Inr (map (item_block astype t (shape1 x0) c) x,
               map (\<lambda>a. min (int (shape0 a)) t) x,
               if m then Some (map (item_mask t c) x) else None))"
    unfolding pad_loop_zero [OF assms(2) inv, where xs = x and c = c, simplified]
    by (simp split: option.splits)
  finally show ?thesis unfolding d .
qed

subsection \<open>The claims on padding\<close>

text \<open>\<open>np_round\<close> is rounding to the nearest integer, a midpoint to the even one.\<close>

lemma np_round_nearest_even:
  "\<bar>v - of_int (np_round v)\<bar> \<le> 1 / 2 \<and>
   (\<bar>v - of_int (np_round v)\<bar> = 1 / 2 \<longrightarrow> even (np_round v))"
proof -
  define f where "f = \<lfloor>v\<rfloor>"
  have "of_int f \<le> v" "v < of_int f + 1" unfolding f_def by linarith+
  then show ?thesis
    unfolding np_round_def Let_def f_def [symmetric] by (auto simp: abs_if)
qed

lemma find_item_ok_shared:
  "\<forall>a\<in>set x. shape1 a = d \<Longrightarrow> find (\<lambda>a. \<not> item_ok d a) x = None"
  by (simp add: find_None_iff item_ok_def)

lemma pad_sequences_shared:
  fixes astype :: "'b \<Rightarrow> 'a::semiring_1"
  assumes "x \<noteq> []" and "0 \<le> t" and "\<forall>a\<in>set x. shape1 a = shape1 (hd x)"
  shows "pad_sequences astype x t c m =
          Inr (map (item_block astype t (shape1 (hd x)) c) x,
               map (\<lambda>a. min (int (shape0 a)) t) x,
               if m then Some (map (item_mask t c) x) else None)"
  by (simp add: pad_sequences_eq [OF assms(1,2)] find_item_ok_shared [OF assms(3)])

lemma nth_padded_row:
  "j < a + length xs + b \<Longrightarrow>
   (replicate a z @ xs @ replicate b z) ! j = (if a \<le> j \<and> j < a + length xs then xs ! (j - a) else z)"
  by (auto simp: nth_append)

lemma sum_list_replicate_0: "sum_list (replicate n (0::'a::semiring_1)) = 0"
  by (induction n) auto

lemma sum_list_replicate_1: "sum_list (replicate n (1::'a::semiring_1)) = of_nat n"
  by (induction n) (auto simp: add.commute)

text \<open>The example conversion on numerals.\<close>

declare bit_length.simps [simp del]

lemma bit_length_0 [simp]: "bit_length 0 = 0"
  by (simp add: bit_length.simps)

lemma bit_length_1 [simp]: "bit_length 1 = 1" "bit_length (Suc 0) = 1"
  by (simp_all add: bit_length.simps [of 1] bit_length.simps [of "Suc 0"])

lemma bit_length_numeral [simp]:
  "bit_length (numeral Num.One) = 1"
  "bit_length (numeral (Num.Bit0 k)) = Suc (bit_length (numeral k))"
  "bit_length (numeral (Num.Bit1 k)) = Suc (bit_length (numeral k))"
  by (simp_all add: bit_length.simps [of "numeral (Num.Bit0 k)"]
      bit_length.simps [of "numeral (Num.Bit1 k)"])

lemma significand_round_example:
  "significand_round 24 16777217 = 16777216" "significand_round 24 2 = 2"
  by (simp_all add: significand_round_def Let_def)

text \<open>
  \<open>np_round\<close> rounds half to even in the spec's sense, and that sense fixes the result.
\<close>

lemma np_round_half_even: "rounds_half_even v (np_round v)"
  unfolding rounds_half_even_def by (rule np_round_nearest_even)

lemma rounds_half_even_unique:
  assumes "rounds_half_even v r" and "rounds_half_even v r'"
  shows "r = r'"
proof (rule ccontr)
  assume ne: "r \<noteq> r'"
  have a: "\<bar>v - of_int r\<bar> \<le> 1 / 2" "\<bar>v - of_int r'\<bar> \<le> 1 / 2"
    using assms by (simp_all add: rounds_half_even_def)
  have "\<bar>(of_int r :: real) - of_int r'\<bar> \<le> 1" using a by linarith
  then have "\<bar>r - r'\<bar> \<le> 1" by linarith
  then have d: "r = r' + 1 \<or> r' = r + 1" using ne by linarith
  then have "(of_int r :: real) = of_int r' + 1 \<or> (of_int r' :: real) = of_int r + 1"
    by auto
  then have "\<bar>v - of_int r\<bar> = 1 / 2 \<and> \<bar>v - of_int r'\<bar> = 1 / 2"
    using a by linarith
  then have "even r" "even r'" using assms by (simp_all add: rounds_half_even_def)
  then show False using d by auto
qed

lemma centre_offset_rounds: "rounds_half_even (of_int (t - int l) / 2) (centre_offset t l)"
  unfolding centre_offset_def by (rule np_round_half_even)

text \<open>
  Claim C1, as amended. With \<^verbatim>\<open>center_padded\<close> set and a batch whose sequences all have the
  feature dimension of the first: for a sequence of \<open>L \<le> T\<close> rows the call returns, the rows
  \<open>[offset, offset + L)\<close> of its item are the sequence with every entry converted to the
  tensor's dtype, where \<open>offset\<close> is \<open>(T - L) / 2\<close> rounded half to even, every other row of
  the item is zero, the reported length is \<open>L\<close>, and a requested mask is 1 on
  \<open>[offset, offset + L)\<close> and 0 elsewhere, with sum \<open>L\<close>.
\<close>

theorem pad_sequences_centred_short:
  fixes astype :: "'b \<Rightarrow> 'a::semiring_1"
  assumes shared: "\<forall>a\<in>set x. shape1 a = shape1 (hd x)"
    and i: "i < length x"
    and short: "int (shape0 (x ! i)) \<le> t"
  shows "\<exists>padded lens mask off.
      pad_sequences astype x t True m = Inr (padded, lens, mask) \<and>
      length padded = length x \<and> length lens = length x \<and>
      rounds_half_even (of_int (t - int (shape0 (x ! i))) / 2) (int off) \<and>
      off + shape0 (x ! i) \<le> nat t \<and>
      length (padded ! i) = nat t \<and>
      take (shape0 (x ! i)) (drop off (padded ! i)) = map (map astype) (rows (x ! i)) \<and>
      (\<forall>j<nat t. \<not> (off \<le> j \<and> j < off + shape0 (x ! i)) \<longrightarrow>
          padded ! i ! j = replicate (shape1 (hd x)) 0) \<and>
      lens ! i = int (shape0 (x ! i)) \<and>
      (if m then
         \<exists>ms. mask = Some ms \<and> length ms = length x \<and> length (ms ! i) = nat t \<and>
           (\<forall>j<nat t. ms ! i ! j = (if off \<le> j \<and> j < off + shape0 (x ! i) then 1 else 0)) \<and>
           sum_list (ms ! i) = of_nat (shape0 (x ! i))
       else mask = None)"
proof -
  let ?l = "shape0 (x ! i)"
  let ?d = "shape1 (hd x)"
  let ?z = "replicate ?d (0::'a)"
  let ?blk = "item_block astype t ?d True (x ! i)"
  let ?msk = "item_mask t True (x ! i) :: 'a list"
  define off where "off = nat (centre_offset t ?l)"
  define tail where "tail = nat t - (off + ?l)"
  have ne: "x \<noteq> []" using i by auto
  have t: "0 \<le> t" using short by simp
  have offi: "int off = centre_offset t ?l"
    using centre_offset_pad(1) [OF short] by (simp add: off_def)
  have rnd: "rounds_half_even (of_int (t - int ?l) / 2) (int off)"
    unfolding offi by (rule centre_offset_rounds)
  have fit: "off + ?l \<le> nat t"
    using centre_offset_pad [OF short] t by (simp add: off_def)
  have nt: "nat t = off + ?l + tail" using fit by (simp add: tail_def)
  have d: "shape1 (x ! i) = ?d" using shared i by simp
  have blk: "?blk = replicate off ?z @ map (map astype) (rows (x ! i)) @ replicate tail ?z"
    using short d by (simp add: item_block_def Let_def off_def tail_def)
  have msk: "?msk = replicate off 0 @ replicate ?l 1 @ replicate tail 0"
    using short by (simp add: item_mask_def Let_def off_def tail_def)
  have lr: "length (rows (x ! i)) = ?l" by (simp add: shape0_def)
  have b1: "length ?blk = nat t" by (simp add: blk lr nt)
  have b2: "take ?l (drop off ?blk) = map (map astype) (rows (x ! i))"
    by (simp add: blk lr)
  have b3: "\<forall>j<nat t. \<not> (off \<le> j \<and> j < off + ?l) \<longrightarrow> ?blk ! j = ?z"
    unfolding blk nt
    using nth_padded_row [of _ off "map (map astype) (rows (x ! i))" tail ?z] by (simp add: lr)
  have m1: "length ?msk = nat t" by (simp add: msk nt)
  have m2: "\<forall>j<nat t. ?msk ! j = (if off \<le> j \<and> j < off + ?l then 1 else 0)"
    unfolding msk nt by (auto simp: nth_append)
  have m3: "sum_list ?msk = of_nat ?l"
    by (simp add: msk sum_list_replicate_0 sum_list_replicate_1)
  have len: "min (int ?l) t = int ?l" using short by simp
  show ?thesis
    unfolding pad_sequences_shared [OF ne t shared]
    using i rnd fit b1 b2 b3 m1 m2 m3 len
    by (intro exI [where x = off] exI conjI) (auto simp: nth_map)
qed

lemma rounds_half_even_iff: "rounds_half_even v r \<longleftrightarrow> r = np_round v"
  using rounds_half_even_unique [of v r "np_round v"] np_round_half_even [of v] by auto

text \<open>
  The theorem at a sequence of two rows with target lengths 5 and 3, where the midpoints
  1.5 and 0.5 round to 2 and to 0, for a conversion that changes nothing.
\<close>

theorem pad_sequences_centred_short_witness:
  "(\<exists>padded lens mask.
      pad_sequences (\<lambda>v. v)
        [\<lparr>shape1 = 2, rows = [[1, 2], [3, 4 :: int]]\<rparr>,
         \<lparr>shape1 = 2, rows = [[1, 2], [3, 4], [5, 6], [7, 8], [9, 10], [11, 12]]\<rparr>] 5 True True
        = Inr (padded, lens, mask) \<and>
      take 2 (drop 2 (padded ! 0)) = [[1, 2], [3, 4]] \<and>
      padded ! 0 ! 0 = [0, 0] \<and> padded ! 0 ! 1 = [0, 0] \<and> padded ! 0 ! 4 = [0, 0] \<and>
      lens ! 0 = 2 \<and>
      (\<exists>ms. mask = Some ms \<and> ms ! 0 ! 0 = 0 \<and> ms ! 0 ! 1 = 0 \<and> ms ! 0 ! 2 = 1 \<and>
         ms ! 0 ! 3 = 1 \<and> ms ! 0 ! 4 = 0 \<and> sum_list (ms ! 0) = 2)) \<and>
   (\<exists>padded lens mask.
      pad_sequences (\<lambda>v. v) [\<lparr>shape1 = 2, rows = [[1, 2], [3, 4 :: int]]\<rparr>] 3 True False
        = Inr (padded, lens, mask) \<and>
      take 2 (drop 0 (padded ! 0)) = [[1, 2], [3, 4]] \<and> padded ! 0 ! 2 = [0, 0])"
proof (rule conjI)
  let ?x = "[\<lparr>shape1 = 2, rows = [[1, 2], [3, 4 :: int]]\<rparr>,
        \<lparr>shape1 = 2, rows = [[1, 2], [3, 4], [5, 6], [7, 8], [9, 10], [11, 12]]\<rparr>]"
  have h: "np_round (of_int 3 / 2) = 2" unfolding np_round_half by simp
  have r: "np_round (of_int (5 - int (shape0 (?x ! 0))) / 2) = 2"
    using h by (simp add: shape0_def)
  from pad_sequences_centred_short [of ?x 0 5 "\<lambda>v. v" True]
  obtain padded lens mask off where
    *: "pad_sequences (\<lambda>v. v) ?x 5 True True = Inr (padded, lens, mask)"
       "rounds_half_even (of_int (5 - int (shape0 (?x ! 0))) / 2) (int off)"
       "take (shape0 (?x ! 0)) (drop off (padded ! 0)) = map (map (\<lambda>v. v)) (rows (?x ! 0))"
       "\<forall>j<nat 5. \<not> (off \<le> j \<and> j < off + shape0 (?x ! 0)) \<longrightarrow>
          padded ! 0 ! j = replicate (shape1 (hd ?x)) 0"
       "lens ! 0 = int (shape0 (?x ! 0))"
       "\<exists>ms. mask = Some ms \<and> length ms = length ?x \<and> length (ms ! 0) = nat 5 \<and>
           (\<forall>j<nat 5. ms ! 0 ! j = (if off \<le> j \<and> j < off + shape0 (?x ! 0) then 1 else 0)) \<and>
           sum_list (ms ! 0) = of_nat (shape0 (?x ! 0))"
    by (auto simp: shape0_def)
  have off: "off = 2" using *(2) unfolding rounds_half_even_iff r by simp
  from *(6) obtain ms where ms: "mask = Some ms"
      "\<forall>j<nat 5. ms ! 0 ! j = (if off \<le> j \<and> j < off + shape0 (?x ! 0) then 1 else 0)"
      "sum_list (ms ! 0) = of_nat (shape0 (?x ! 0))" by auto
  have z: "padded ! 0 ! 0 = [0, 0]" "padded ! 0 ! 1 = [0, 0]" "padded ! 0 ! 4 = [0, 0]"
    using *(4) [rule_format, of 0] *(4) [rule_format, of 1] *(4) [rule_format, of 4]
    by (simp_all add: off shape0_def eval_nat_numeral)
  have m: "ms ! 0 ! 0 = 0" "ms ! 0 ! 1 = 0" "ms ! 0 ! 2 = 1" "ms ! 0 ! 3 = 1" "ms ! 0 ! 4 = 0"
    using ms(2) [rule_format, of 0] ms(2) [rule_format, of 1] ms(2) [rule_format, of 2]
      ms(2) [rule_format, of 3] ms(2) [rule_format, of 4] by (simp_all add: off shape0_def)
  have tk: "take 2 (drop 2 (padded ! 0)) = [[1, 2], [3, 4]]"
    using *(3) by (simp add: off shape0_def numeral_2_eq_2)
  have ln: "lens ! 0 = 2" and sm: "sum_list (ms ! 0) = 2"
    using *(5) ms(3) by (simp_all add: shape0_def)
  show "\<exists>padded lens mask.
      pad_sequences (\<lambda>v. v) ?x 5 True True = Inr (padded, lens, mask) \<and>
      take 2 (drop 2 (padded ! 0)) = [[1, 2], [3, 4]] \<and>
      padded ! 0 ! 0 = [0, 0] \<and> padded ! 0 ! 1 = [0, 0] \<and> padded ! 0 ! 4 = [0, 0] \<and>
      lens ! 0 = 2 \<and>
      (\<exists>ms. mask = Some ms \<and> ms ! 0 ! 0 = 0 \<and> ms ! 0 ! 1 = 0 \<and> ms ! 0 ! 2 = 1 \<and>
         ms ! 0 ! 3 = 1 \<and> ms ! 0 ! 4 = 0 \<and> sum_list (ms ! 0) = 2)"
    using *(1) z m ms(1) tk ln sm by simp
next
  let ?y = "[\<lparr>shape1 = 2, rows = [[1, 2], [3, 4 :: int]]\<rparr>]"
  have h: "np_round (of_int 1 / 2) = 0" unfolding np_round_half by simp
  have r: "np_round (of_int (3 - int (shape0 (?y ! 0))) / 2) = 0"
    using h by (simp add: shape0_def)
  from pad_sequences_centred_short [of ?y 0 3 "\<lambda>v. v" False]
  obtain padded lens mask off where
    *: "pad_sequences (\<lambda>v. v) ?y 3 True False = Inr (padded, lens, mask)"
       "rounds_half_even (of_int (3 - int (shape0 (?y ! 0))) / 2) (int off)"
       "take (shape0 (?y ! 0)) (drop off (padded ! 0)) = map (map (\<lambda>v. v)) (rows (?y ! 0))"
       "\<forall>j<nat 3. \<not> (off \<le> j \<and> j < off + shape0 (?y ! 0)) \<longrightarrow>
          padded ! 0 ! j = replicate (shape1 (hd ?y)) 0"
    by (auto simp: shape0_def)
  have off: "off = 0" using *(2) unfolding rounds_half_even_iff r by simp
  have z: "padded ! 0 ! 2 = [0, 0]"
    using *(4) [rule_format, of 2] by (simp add: off shape0_def eval_nat_numeral)
  have tk: "take 2 (drop 0 (padded ! 0)) = [[1, 2], [3, 4]]"
    using *(3) by (simp add: off shape0_def numeral_2_eq_2)
  show "\<exists>padded lens mask.
      pad_sequences (\<lambda>v. v) ?y 3 True False = Inr (padded, lens, mask) \<and>
      take 2 (drop 0 (padded ! 0)) = [[1, 2], [3, 4]] \<and> padded ! 0 ! 2 = [0, 0]"
    using *(1) z tk by simp
qed


text \<open>
  Claim C1 as it was stated fails: the block is not the original sequence where the
  conversion changes an entry, as a significand of 24 bits changes the integer
  16777217.
\<close>

theorem pad_sequences_conversion_counterexample:
  "pad_sequences (significand_round 24) [\<lparr>shape1 = 1, rows = [[16777217], [2]]\<rparr>] 2 True False
     = Inr ([[[16777216], [2]]], [2], None) \<and>
   take 2 (drop 0 [[16777216], [2 :: int]]) \<noteq> rows \<lparr>shape1 = 1, rows = [[16777217], [2]]\<rparr>"
proof -
  let ?x = "[\<lparr>shape1 = 1, rows = [[16777217], [2 :: int]]\<rparr>]"
  have ne: "?x \<noteq> []" by simp
  have sh: "\<forall>a\<in>set ?x. shape1 a = shape1 (hd ?x)" by simp
  have r: "centre_offset 2 (Suc (Suc 0)) = 0" by (simp add: centre_offset_def np_round_def)
  have eq: "pad_sequences (significand_round 24) ?x 2 True False =
      Inr (map (item_block (significand_round 24) 2 (shape1 (hd ?x)) True) ?x,
           map (\<lambda>a. min (int (shape0 a)) 2) ?x,
           if False then Some (map (item_mask 2 True) ?x) else None)"
    by (rule pad_sequences_shared [OF ne _ sh]) simp
  have "pad_sequences (significand_round 24) ?x 2 True False = Inr ([[[16777216], [2]]], [2], None)"
    unfolding eq by (simp add: item_block_def shape0_def Let_def r significand_round_example)
  then show ?thesis by simp
qed




lemma find_item_ok_Some:
  assumes "a \<in> set x" and "\<not> item_ok d a"
  shows "\<exists>b. find (\<lambda>a. \<not> item_ok d a) x = Some b"
  using assms by (cases "find (\<lambda>a. \<not> item_ok d a) x") (auto simp: find_None_iff)

lemma item_line_cases: "item_line t c a = 200 \<or> item_line t c a = 205 \<or> item_line t c a = 211"
  by (simp add: item_line_def)

text \<open>
  Claim C8, as amended. When some sequence of the batch has a feature dimension that is
  neither that of the first sequence nor 1, the call raises \<^verbatim>\<open>ValueError\<close> and returns
  nothing: for \<open>T \<ge> 0\<close> the error comes from one of the three array assignments, and
  for \<open>T < 0\<close> from the allocation of the tensor.
\<close>

theorem pad_sequences_shape_mismatch:
  fixes astype :: "'b \<Rightarrow> 'a::semiring_1"
  assumes "a \<in> set x" and "shape1 a \<noteq> shape1 (hd x)" and "shape1 a \<noteq> 1"
  shows "\<exists>line. pad_sequences astype x t c m = Inl (ValueError line) \<and>
           (if t < 0 then line = 191 else line = 200 \<or> line = 205 \<or> line = 211)"
proof (cases "t < 0")
  case True
  then show ?thesis using assms(1) by (cases x) (auto simp: pad_sequences_def)
next
  case False
  have ne: "x \<noteq> []" using assms(1) by auto
  have bad: "\<not> item_ok (shape1 (hd x)) a" using assms(2,3) by (simp add: item_ok_def)
  obtain b where b: "find (\<lambda>a. \<not> item_ok (shape1 (hd x)) a) x = Some b"
    using find_item_ok_Some [OF assms(1) bad] by blast
  have "pad_sequences astype x t c m = Inl (ValueError (item_line t c b))"
    using False by (simp add: pad_sequences_eq [OF ne] b)
  then show ?thesis using False item_line_cases [of t c b] by auto
qed

text \<open>The theorem at a batch with feature dimensions 2 and 3.\<close>

theorem pad_sequences_shape_mismatch_witness:
  "\<exists>line.
     pad_sequences (\<lambda>v. v)
       [\<lparr>shape1 = 2, rows = [[1, 2 :: int]]\<rparr>, \<lparr>shape1 = 3, rows = [[1, 2, 3]]\<rparr>] 1 True False
       = Inl (ValueError line) \<and>
     (line = 200 \<or> line = 205 \<or> line = 211)"
  using pad_sequences_shape_mismatch
    [of "\<lparr>shape1 = 3, rows = [[1, 2, 3 :: int]]\<rparr>"
        "[\<lparr>shape1 = 2, rows = [[1, 2]]\<rparr>, \<lparr>shape1 = 3, rows = [[1, 2, 3]]\<rparr>]"
        "\<lambda>v. v" 1 True False]
  by simp

text \<open>
  Claim C8 as it was stated fails: a sequence with one feature column differs from the
  first sequence's two, and the call returns, with the column repeated.
\<close>

theorem pad_sequences_broadcast_counterexample:
  "shape1 \<lparr>shape1 = 1, rows = [[3 :: int]]\<rparr>
     \<noteq> shape1 (hd [\<lparr>shape1 = 2, rows = [[1, 2]]\<rparr>, \<lparr>shape1 = 1, rows = [[3 :: int]]\<rparr>]) \<and>
   pad_sequences (\<lambda>v. v)
     [\<lparr>shape1 = 2, rows = [[1, 2]]\<rparr>, \<lparr>shape1 = 1, rows = [[3 :: int]]\<rparr>] 1 True False
     = Inr ([[[1, 2]], [[3, 3]]], [1, 1], None)"
proof -
  have r: "centre_offset 1 (Suc 0) = 0"
    by (simp add: centre_offset_def np_round_def)
  show ?thesis
    by (simp add: pad_sequences_eq item_ok_def item_block_def item_mask_def widen_def
        shape0_def r numeral_2_eq_2)
qed

text \<open>For a batch that is not empty and \<open>T \<ge> 0\<close>, these are the only failures.\<close>

lemma pad_sequences_returns_iff:
  fixes astype :: "'b \<Rightarrow> 'a::semiring_1"
  assumes "x \<noteq> []" and "0 \<le> t"
  shows "(\<exists>r. pad_sequences astype x t c m = Inr r) \<longleftrightarrow>
         (\<forall>a\<in>set x. shape1 a = shape1 (hd x) \<or> shape1 a = 1)"
proof (cases "find (\<lambda>a. \<not> item_ok (shape1 (hd x)) a) x")
  case None
  then have ok: "\<forall>a\<in>set x. shape1 a = shape1 (hd x) \<or> shape1 a = 1"
    by (simp add: find_None_iff item_ok_def)
  have "\<exists>r. pad_sequences astype x t c m = Inr r" by (simp add: pad_sequences_eq [OF assms] None)
  then show ?thesis using ok by simp
next
  case (Some b)
  then have bad: "b \<in> set x" "shape1 b \<noteq> shape1 (hd x)" "shape1 b \<noteq> 1"
    by (auto simp: find_Some_iff item_ok_def)
  have "\<not> (\<exists>r. pad_sequences astype x t c m = Inr r)" by (simp add: pad_sequences_eq [OF assms] Some)
  then show ?thesis using bad by blast
qed

section \<open>Properties of \<^verbatim>\<open>load_data_from_npz\<close>\<close>

lemma split_on_not_Nil [simp]: "split_on sep s \<noteq> []"
  by (induction s) (auto split: list.splits)

lemma length_split_on: "length (split_on sep s) = Suc (count_list s sep)"
  by (induction s) (auto split: list.splits)

lemma split_on_two_iff: "2 \<le> length (split_on sep s) \<longleftrightarrow> sep \<in> set s"
  using count_list_0_iff [of s sep] by (auto simp: length_split_on)

lemma hd_split_on: "hd (split_on sep s) = takeWhile (\<lambda>ch. ch \<noteq> sep) s"
  by (induction s) (auto split: list.splits)

text \<open>
  The loop when every kept name has an underscore, and when one has none. The names it
  runs over are names of members, so that the lookup of line 31 succeeds.
\<close>

lemma load_loop_ok:
  assumes "set ks \<subseteq> fst ` set npz"
    and "\<forall>k\<in>set ks. retained npz ml k \<longrightarrow> CHR ''_'' \<in> set k"
  shows "load_loop npz ml ks (x, labels, speakers, lengths, keys, n) =
     (let rs = filter (retained npz ml) ks in
      Inr (x @ map (\<lambda>k. the (map_of npz k)) rs,
           labels @ map (\<lambda>k. split_on (CHR ''_'') k ! 0) rs,
           speakers @ map (\<lambda>k. split_on (CHR ''_'') k ! 1) rs,
           lengths @ map (\<lambda>k. int (shape0 (the (map_of npz k)))) rs,
           keys @ rs,
           n + length rs))"
  using assms
proof (induction ks arbitrary: x labels speakers lengths keys n)
  case Nil
  show ?case by simp
next
  case (Cons k ks)
  from Cons.prems(1) obtain a where a: "map_of npz k = Some a"
    by (cases "map_of npz k") (auto simp: map_of_eq_None_iff)
  have sub: "set ks \<subseteq> fst ` set npz" and und: "\<forall>k\<in>set ks. retained npz ml k \<longrightarrow> CHR ''_'' \<in> set k"
    using Cons.prems by auto
  show ?case
  proof (cases "retained npz ml k")
    case False
    then show ?thesis
      using a by (simp add: retained_def Cons.IH [OF sub und] Let_def split: option.splits)
  next
    case True
    then have "CHR ''_'' \<in> set k" using Cons.prems(2) by simp
    then have two: "1 < length (split_on (CHR ''_'') k)" "0 < length (split_on (CHR ''_'') k)"
      using split_on_two_iff [of "CHR ''_''" k] by auto
    show ?thesis
      using a True two
      by (simp add: retained_def Cons.IH [OF sub und] Let_def list_item_def split: option.splits)
  qed
qed

lemma load_loop_bad_key:
  assumes "set ks \<subseteq> fst ` set npz"
    and "k \<in> set ks" and "retained npz ml k" and "CHR ''_'' \<notin> set k"
  shows "load_loop npz ml ks st = Inl (IndexError 38)"
  using assms
proof (induction ks arbitrary: st)
  case Nil
  then show ?case by simp
next
  case (Cons k' ks)
  obtain x labels speakers lengths keys n_items where st: "st = (x, labels, speakers, lengths, keys, n_items)"
    by (cases st) auto
  from Cons.prems(1) obtain a where a: "map_of npz k' = Some a"
    by (cases "map_of npz k'") (auto simp: map_of_eq_None_iff)
  have sub: "set ks \<subseteq> fst ` set npz" using Cons.prems by auto
  have len0: "0 < length (split_on (CHR ''_'') k')" by simp
  show ?case
  proof (cases "retained npz ml k'")
    case False
    then have "k \<noteq> k'" using Cons.prems(3) by auto
    then have "k \<in> set ks" using Cons.prems(2) by simp
    from Cons.IH [OF sub this Cons.prems(3,4)] show ?thesis
      unfolding st using a False by (simp add: retained_def split: option.splits)
  next
    case True
    show ?thesis
    proof (cases "CHR ''_'' \<in> set k'")
      case False
      then have "\<not> 1 < length (split_on (CHR ''_'') k')"
        using split_on_two_iff [of "CHR ''_''" k'] by auto
      then show ?thesis
        unfolding st using a True len0
        by (simp add: retained_def list_item_def Let_def split: option.splits)
    next
      case und: True
      then have "k \<noteq> k'" using Cons.prems(4) by auto
      then have k: "k \<in> set ks" using Cons.prems(2) by simp
      have two: "1 < length (split_on (CHR ''_'') k')"
        using und split_on_two_iff [of "CHR ''_''" k'] by auto
      show ?thesis
        unfolding st using a True two len0
        by (simp add: retained_def list_item_def Let_def Cons.IH [OF sub k Cons.prems(3,4)]
            split: option.splits)
    qed
  qed
qed

lemma retained_keys_subset: "set (retained_keys npz ml) \<subseteq> fst ` set npz"
  by (auto simp: retained_keys_def)

lemma sorted_retained_keys: "sorted (retained_keys npz ml)"
  by (simp add: retained_keys_def sorted_wrt_filter)

lemma retained_iff:
  assumes "k \<in> fst ` set npz"
  shows "retained npz ml k \<longleftrightarrow>
         (case ml of None \<Rightarrow> True | Some m \<Rightarrow> m < int (length (rows (the (map_of npz k)))))"
proof -
  obtain a where "map_of npz k = Some a"
    using assms by (cases "map_of npz k") (auto simp: map_of_eq_None_iff)
  then show ?thesis by (simp add: retained_def shape0_def split: option.splits)
qed

lemma not_retained_outside: "k \<notin> fst ` set npz \<Longrightarrow> \<not> retained npz ml k"
  by (simp add: retained_def map_of_eq_None_iff [THEN iffD2])

text \<open>
  The call in closed form: it fails at the first kept name without an underscore, fails
  when nothing is kept, and otherwise returns the lists built along the kept names.
\<close>

lemma load_data_from_npz_eq:
  "load_data_from_npz npz ml =
     (let ks = retained_keys npz ml in
      if \<exists>k\<in>set ks. CHR ''_'' \<notin> set k then Inl (IndexError 38)
      else if ks = [] then Inl (IndexError 44)
      else Inr (map (\<lambda>k. the (map_of npz k)) ks,
                map (\<lambda>k. split_on (CHR ''_'') k ! 0) ks,
                map (\<lambda>k. int (shape0 (the (map_of npz k)))) ks,
                ks,
                map (\<lambda>k. split_on (CHR ''_'') k ! 1) ks))"
proof (cases "\<exists>k\<in>set (retained_keys npz ml). CHR ''_'' \<notin> set k")
  case True
  then obtain k where k: "k \<in> set (sort (map fst npz))" "retained npz ml k" "CHR ''_'' \<notin> set k"
    by (auto simp: retained_keys_def)
  have sub: "set (sort (map fst npz)) \<subseteq> fst ` set npz" by simp
  show ?thesis
    using True by (simp add: load_data_from_npz_def load_loop_bad_key [OF sub k])
next
  case False
  have sub: "set (sort (map fst npz)) \<subseteq> fst ` set npz" by simp
  have und: "\<forall>k\<in>set (sort (map fst npz)). retained npz ml k \<longrightarrow> CHR ''_'' \<in> set k"
    using False by (auto simp: retained_keys_def)
  show ?thesis
    using False unfolding load_data_from_npz_def load_loop_ok [OF sub und]
    by (simp add: Let_def retained_keys_def [symmetric] list_item_def)
qed

text \<open>
  Claim C6. The names are processed in sorted order and exactly the members whose number
  of rows exceeds \<^verbatim>\<open>min_length\<close> are kept (all of them when it is \<^verbatim>\<open>None\<close>). When each
  kept name has an underscore and something is kept, the call returns: the keys are the
  kept names in sorted order, and along them the data are the members' arrays, each label
  is the first and each speaker the second segment of the name split at underscores, and
  each length is the number of rows of the array.
\<close>

theorem load_data_from_npz_sorted_retained:
  assumes "\<forall>k\<in>fst ` set npz. retained npz min_length k \<longrightarrow> CHR ''_'' \<in> set k"
    and "\<exists>k\<in>fst ` set npz. retained npz min_length k"
  shows "\<exists>ks. load_data_from_npz npz min_length =
            Inr (map (\<lambda>k. the (map_of npz k)) ks,
                 map (\<lambda>k. split_on (CHR ''_'') k ! 0) ks,
                 map (\<lambda>k. int (length (rows (the (map_of npz k))))) ks,
                 ks,
                 map (\<lambda>k. split_on (CHR ''_'') k ! 1) ks) \<and>
          ks = filter (retained npz min_length) (sort (map fst npz)) \<and>
          sorted ks \<and>
          set ks = {k \<in> fst ` set npz.
                     case min_length of None \<Rightarrow> True
                     | Some m \<Rightarrow> m < int (length (rows (the (map_of npz k))))} \<and>
          (\<forall>k\<in>set ks. 2 \<le> length (split_on (CHR ''_'') k))"
proof -
  let ?ks = "retained_keys npz min_length"
  have ok: "\<not> (\<exists>k\<in>set ?ks. CHR ''_'' \<notin> set k)"
    using assms(1) by (auto simp: retained_keys_def)
  have ne: "?ks \<noteq> []"
    using assms(2) by (auto simp: retained_keys_def filter_empty_conv)
  have st: "set ?ks = {k \<in> fst ` set npz.
                     case min_length of None \<Rightarrow> True
                     | Some m \<Rightarrow> m < int (length (rows (the (map_of npz k))))}"
    using retained_iff [of _ npz min_length] by (auto simp: retained_keys_def)
  have two: "\<forall>k\<in>set ?ks. 2 \<le> length (split_on (CHR ''_'') k)"
    using ok by (simp add: split_on_two_iff)
  have eq: "load_data_from_npz npz min_length =
            Inr (map (\<lambda>k. the (map_of npz k)) ?ks,
                 map (\<lambda>k. split_on (CHR ''_'') k ! 0) ?ks,
                 map (\<lambda>k. int (length (rows (the (map_of npz k))))) ?ks,
                 ?ks,
                 map (\<lambda>k. split_on (CHR ''_'') k ! 1) ?ks)"
    unfolding load_data_from_npz_eq Let_def if_not_P [OF ok] if_not_P [OF ne] shape0_def ..
  have df: "?ks = filter (retained npz min_length) (sort (map fst npz))"
    by (simp add: retained_keys_def)
  show ?thesis
    using eq df st two sorted_retained_keys [of npz min_length]
    by (intro exI [where x = ?ks] conjI)
qed

text \<open>The theorem at an archive of three members and \<^verbatim>\<open>min_length = 0\<close>.\<close>

theorem load_data_from_npz_sorted_retained_witness:
  "load_data_from_npz
     [(''b_s2_x'', \<lparr>shape1 = 1, rows = [[1], [2 :: int]]\<rparr>),
      (''a_s1'', \<lparr>shape1 = 1, rows = [[3]]\<rparr>),
      (''c'', \<lparr>shape1 = 1, rows = []\<rparr>)] (Some 0)
     = Inr ([\<lparr>shape1 = 1, rows = [[3]]\<rparr>, \<lparr>shape1 = 1, rows = [[1], [2]]\<rparr>],
            [''a'', ''b''], [1, 2], [''a_s1'', ''b_s2_x''], [''s1'', ''s2''])"
proof -
  let ?npz = "[(''b_s2_x'', \<lparr>shape1 = 1, rows = [[1], [2 :: int]]\<rparr>),
      (''a_s1'', \<lparr>shape1 = 1, rows = [[3]]\<rparr>),
      (''c'', \<lparr>shape1 = 1, rows = []\<rparr>)]"
  have ks: "filter (retained ?npz (Some 0)) (sort (map fst ?npz)) = [''a_s1'', ''b_s2_x'']"
    by (simp add: retained_def shape0_def)
  have h1: "\<forall>k\<in>fst ` set ?npz. retained ?npz (Some 0) k \<longrightarrow> CHR ''_'' \<in> set k"
    by (simp add: retained_def shape0_def)
  have h2: "\<exists>k\<in>fst ` set ?npz. retained ?npz (Some 0) k"
    by (simp add: retained_def shape0_def)
  from load_data_from_npz_sorted_retained [OF h1 h2]
  show ?thesis unfolding ks by simp
qed

text \<open>
  Claim C7. A kept name without an underscore splits into fewer than two segments, and
  the call then fails with the \<^verbatim>\<open>IndexError\<close> of line 38 instead of returning.
\<close>

theorem load_data_from_npz_malformed_key:
  assumes "k \<in> fst ` set npz" and "retained npz min_length k" and "CHR ''_'' \<notin> set k"
  shows "load_data_from_npz npz min_length = Inl (IndexError 38) \<and>
         length (split_on (CHR ''_'') k) < 2"
proof -
  have "k \<in> set (retained_keys npz min_length)"
    using assms(1,2) by (simp add: retained_keys_def)
  then have "\<exists>k\<in>set (retained_keys npz min_length). CHR ''_'' \<notin> set k"
    using assms(3) by blast
  then have "load_data_from_npz npz min_length = Inl (IndexError 38)"
    by (simp add: load_data_from_npz_eq)
  moreover have "length (split_on (CHR ''_'') k) < 2"
    using assms(3) split_on_two_iff [of "CHR ''_''" k] by simp
  ultimately show ?thesis by simp
qed

text \<open>The theorem at the same archive with no \<^verbatim>\<open>min_length\<close>, where the member \<open>c\<close> is kept.\<close>

theorem load_data_from_npz_malformed_key_witness:
  "load_data_from_npz
     [(''b_s2_x'', \<lparr>shape1 = 1, rows = [[1], [2 :: int]]\<rparr>),
      (''a_s1'', \<lparr>shape1 = 1, rows = [[3]]\<rparr>),
      (''c'', \<lparr>shape1 = 1, rows = []\<rparr>)] None
     = Inl (IndexError 38) \<and>
   split_on (CHR ''_'') ''c'' = [''c'']"
  using load_data_from_npz_malformed_key
    [of "''c''" "[(''b_s2_x'', \<lparr>shape1 = 1, rows = [[1], [2 :: int]]\<rparr>),
      (''a_s1'', \<lparr>shape1 = 1, rows = [[3]]\<rparr>),
      (''c'', \<lparr>shape1 = 1, rows = []\<rparr>)]" None]
  by (simp add: retained_def)

text \<open>
  Claim C10. On an archive with no members, or when no member is kept, the call fails
  with the \<^verbatim>\<open>IndexError\<close> of line 44, where it reads \<^verbatim>\<open>x[0]\<close>; a call that returns has
  kept at least one member.
\<close>

theorem load_data_from_npz_empty:
  "load_data_from_npz [] min_length = Inl (IndexError 44) \<and>
   (filter (retained npz min_length) (map fst npz) = [] \<longrightarrow>
      load_data_from_npz npz min_length = Inl (IndexError 44)) \<and>
   (\<forall>x labels lengths keys speakers.
      load_data_from_npz npz min_length = Inr (x, labels, lengths, keys, speakers) \<longrightarrow>
      x \<noteq> [] \<and> keys \<noteq> [] \<and> (\<exists>k\<in>fst ` set npz. retained npz min_length k))"
proof (intro conjI allI impI)
  show "load_data_from_npz [] min_length = Inl (IndexError 44)"
    by (simp add: load_data_from_npz_eq retained_keys_def)
next
  assume "filter (retained npz min_length) (map fst npz) = []"
  then have "retained_keys npz min_length = []"
    by (auto simp: retained_keys_def filter_empty_conv)
  then show "load_data_from_npz npz min_length = Inl (IndexError 44)"
    by (simp add: load_data_from_npz_eq)
next
  fix x labels lengths keys speakers
  assume r: "load_data_from_npz npz min_length = Inr (x, labels, lengths, keys, speakers)"
  then have ne: "retained_keys npz min_length \<noteq> []"
    and eq: "x = map (\<lambda>k. the (map_of npz k)) (retained_keys npz min_length)"
            "keys = retained_keys npz min_length"
    by (auto simp: load_data_from_npz_eq Let_def split: if_splits)
  show "x \<noteq> []" using ne eq by simp
  show "keys \<noteq> []" using ne eq by simp
  show "\<exists>k\<in>fst ` set npz. retained npz min_length k"
    using ne by (auto simp: retained_keys_def filter_empty_conv)
qed

text \<open>The theorem at an archive of two members: none is longer than 2, one is longer than 1.\<close>

theorem load_data_from_npz_empty_witness:
  "load_data_from_npz
     [(''b_s2_x'', \<lparr>shape1 = 1, rows = [[1], [2 :: int]]\<rparr>),
      (''a_s1'', \<lparr>shape1 = 1, rows = [[3]]\<rparr>)] (Some 2)
     = Inl (IndexError 44) \<and>
   (\<exists>x labels lengths keys speakers.
      load_data_from_npz
        [(''b_s2_x'', \<lparr>shape1 = 1, rows = [[1], [2 :: int]]\<rparr>),
         (''a_s1'', \<lparr>shape1 = 1, rows = [[3]]\<rparr>)] (Some 1)
        = Inr (x, labels, lengths, keys, speakers) \<and> x \<noteq> [] \<and> keys \<noteq> [])"
proof -
  let ?npz = "[(''b_s2_x'', \<lparr>shape1 = 1, rows = [[1], [2 :: int]]\<rparr>),
      (''a_s1'', \<lparr>shape1 = 1, rows = [[3]]\<rparr>)]"
  have none: "filter (retained ?npz (Some 2)) (map fst ?npz) = []"
    by (simp add: retained_def shape0_def)
  have ev: "load_data_from_npz ?npz (Some 1) =
      Inr ([\<lparr>shape1 = 1, rows = [[1], [2]]\<rparr>], [''b''], [2], [''b_s2_x''], [''s2''])"
    by code_simp
  note inst = load_data_from_npz_empty [of "Some 2" ?npz]
    load_data_from_npz_empty [of "Some 1" ?npz]
  have a: "load_data_from_npz ?npz (Some 2) = Inl (IndexError 44)"
    using inst(1) none by blast
  have b: "[\<lparr>shape1 = 1, rows = [[1], [2 :: int]]\<rparr>] \<noteq> [] \<and> [''b_s2_x''] \<noteq> []"
    using inst(2) ev by blast
  show ?thesis using a b ev by blast
qed

section \<open>Properties of \<^verbatim>\<open>filter_data\<close>\<close>

subsection \<open>Selections and the loops\<close>

lemma pick_Nil [simp]: "pick src [] = ([], [], [], [], [])"
  by (simp add: pick_def split: prod.splits)

lemma eqlen_pick: "eqlen (pick src idxs) (length idxs)"
  by (simp add: pick_def eqlen_def split: prod.splits)

lemma labels_of_pick: "labels_of (pick src idxs) = map (\<lambda>i. labels_of src ! i) idxs"
  by (simp add: pick_def labels_of_def split: prod.splits)

lemma map_nth_upt: "length xs = n \<Longrightarrow> map (\<lambda>i. xs ! i) [0..<n] = xs"
  using map_nth [of xs] by simp

lemma pick_all: "eqlen src n \<Longrightarrow> pick src [0..<n] = src"
  by (cases src) (simp add: pick_def eqlen_def map_nth_upt)

lemma length_labels_of: "eqlen src n \<Longrightarrow> length (labels_of src) = n"
  by (cases src) (simp add: eqlen_def labels_of_def)

lemma keep_types_Cons:
  "keep_types line types src (i # rest) acc =
     (if length (labels_of src) \<le> i then Inl (IndexError line)
      else if labels_of src ! i \<in> set types then
        (case append_entry (line + 1) src i acc of
           Inl e \<Rightarrow> Inl e
         | Inr acc' \<Rightarrow> keep_types line types src rest acc')
      else keep_types line types src rest acc)"
  by (cases src) (hypsubst, simp add: labels_of_def)

lemma cap_per_type_Cons:
  "cap_per_type m src (i # rest) c acc =
     (if length (labels_of src) \<le> i then Inl (IndexError 164)
      else if int (counter_get c (labels_of src ! i)) < m then
        (case append_entry 165 src i acc of
           Inl e \<Rightarrow> Inl e
         | Inr acc' \<Rightarrow> cap_per_type m src rest (counter_incr (labels_of src ! i) c) acc')
      else cap_per_type m src rest c acc)"
  by (cases src) (hypsubst, simp add: labels_of_def split: sum.splits)

lemma pick_pick:
  "set js \<subseteq> {..<length idxs} \<Longrightarrow> pick (pick src idxs) js = pick src (map (\<lambda>j. idxs ! j) js)"
  by (auto simp: pick_def split: prod.splits)

lemma append_entry_pick:
  assumes "eqlen src n" and "i < n"
  shows "append_entry line src i (pick src js) = Inr (pick src (js @ [i]))"
  using assms by (auto simp: append_entry_def pick_def eqlen_def split: prod.splits)

text \<open>
  On five lists of one length and positions within it, no loop raises, and each appends
  the entries at the positions it admits.
\<close>

lemma keep_types_pick:
  assumes "eqlen src n" and "set is \<subseteq> {..<n}"
  shows "keep_types line types src is (pick src js) =
           Inr (pick src (js @ filter (\<lambda>i. labels_of src ! i \<in> set types) is))"
  using assms(2)
proof (induction "is" arbitrary: js)
  case Nil
  show ?case by simp
next
  case (Cons i rest)
  have i: "i < n" and rest: "set rest \<subseteq> {..<n}" using Cons.prems by auto
  show ?case
    using i by (simp add: keep_types_Cons length_labels_of [OF assms(1)]
        append_entry_pick [OF assms(1) i] Cons.IH [OF rest] del: keep_types.simps)
qed

lemma take_entries_pick:
  assumes "eqlen src n" and "set is \<subseteq> {..<n}"
  shows "take_entries src is (pick src js) = Inr (pick src (js @ is))"
  using assms(2)
proof (induction "is" arbitrary: js)
  case Nil
  show ?case by simp
next
  case (Cons i rest)
  have i: "i < n" and rest: "set rest \<subseteq> {..<n}" using Cons.prems by auto
  show ?case
    by (simp add: append_entry_pick [OF assms(1) i] Cons.IH [OF rest])
qed

lemma cap_per_type_pick:
  assumes "eqlen src n" and "set is \<subseteq> {..<n}"
  shows "cap_per_type m src is c (pick src js) =
           Inr (pick src (js @ admitted m (labels_of src) is c))"
  using assms(2)
proof (induction "is" arbitrary: js c)
  case Nil
  show ?case by simp
next
  case (Cons i rest)
  have i: "i < n" and rest: "set rest \<subseteq> {..<n}" using Cons.prems by auto
  show ?case
    using i by (simp add: cap_per_type_Cons length_labels_of [OF assms(1)]
        append_entry_pick [OF assms(1) i] Cons.IH [OF rest] del: cap_per_type.simps)
qed

lemma selection_of_refl: "eqlen src n \<Longrightarrow> selection_of src src"
  unfolding selection_of_def
  by (rule exI [where x = "[0..<n]"]) (cases src, auto simp: pick_all eqlen_def)

lemma selection_of_eqlen: "selection_of src out \<Longrightarrow> \<exists>m. eqlen out m"
  unfolding selection_of_def using eqlen_pick by blast

lemma selection_of_pick:
  "eqlen src n \<Longrightarrow> distinct idxs \<Longrightarrow> set idxs \<subseteq> {..<n} \<Longrightarrow> selection_of src (pick src idxs)"
  unfolding selection_of_def by (cases src) (auto simp: eqlen_def)

lemma length_fst_pick: "length (fst (pick src idxs)) = length idxs"
  by (cases src) (simp add: pick_def)

lemma selection_of_trans:
  assumes "selection_of src mid" and "selection_of mid out"
  shows "selection_of src out"
proof -
  from assms(1) obtain a where a: "distinct a" "set a \<subseteq> {..<length (fst src)}" "mid = pick src a"
    unfolding selection_of_def by blast
  from assms(2) obtain b where b: "distinct b" "set b \<subseteq> {..<length a}" "out = pick mid b"
    unfolding selection_of_def a(3) length_fst_pick by blast
  have out: "out = pick src (map (\<lambda>j. a ! j) b)"
    unfolding b(3) a(3) by (rule pick_pick [OF b(2)])
  have inj: "inj_on (\<lambda>j. a ! j) (set b)"
    using a(1) b(2) by (intro inj_onI) (metis lessThan_iff nth_eq_iff_index_eq subsetD)
  have d: "distinct (map (\<lambda>j. a ! j) b)" using b(1) inj by (simp add: distinct_map)
  have s: "set (map (\<lambda>j. a ! j) b) \<subseteq> {..<length (fst src)}"
    using a(2) b(2) by (auto simp: subset_iff)
  show ?thesis unfolding selection_of_def using out d s by blast
qed

lemma selection_of_labels:
  assumes "eqlen src n" and "selection_of src out"
  shows "set (labels_of out) \<subseteq> set (labels_of src)"
proof -
  from assms(2) obtain a where a: "set a \<subseteq> {..<length (fst src)}" "out = pick src a"
    unfolding selection_of_def by blast
  have "length (fst src) = n" using assms(1) by (cases src) (simp add: eqlen_def)
  then show ?thesis
    using a(1) length_labels_of [OF assms(1)] unfolding a(2) labels_of_pick by auto
qed

lemma shuffle_ok_perm:
  assumes "shuffle_ok R" and "shuffle R g [0..<n] = (indices, g')"
  shows "distinct indices" and "set indices = {..<n}"
proof -
  have m: "mset indices = mset [0..<n]"
    using assms(1) [unfolded shuffle_ok_def, rule_format, of g "[0..<n]"] assms(2) by simp
  show "distinct indices" using mset_eq_imp_distinct_iff [OF m] by simp
  show "set indices = {..<n}" using mset_eq_setD [OF m] by (simp add: lessThan_atLeast0)
qed

lemma set_py_slice: "set (py_slice a b xs) \<subseteq> set xs"
  unfolding py_slice_def Let_def by (meson set_drop_subset set_take_subset subset_trans)

lemma distinct_py_slice: "distinct xs \<Longrightarrow> distinct (py_slice a b xs)"
  unfolding py_slice_def Let_def by (simp add: distinct_take distinct_drop)

lemma set_admitted: "set (admitted m labels is c) \<subseteq> set is"
  by (induction "is" arbitrary: c) auto

lemma distinct_admitted: "distinct is \<Longrightarrow> distinct (admitted m labels is c)"
proof (induction "is" arbitrary: c)
  case Nil
  show ?case by simp
next
  case (Cons i rest)
  then show ?case using set_admitted [of m labels rest] by (auto simp: subset_iff)
qed

subsection \<open>The stages\<close>

lemma stage_max_types_sel:
  assumes "eqlen src n"
  shows "\<exists>out. stage_max_types nt src = Inr out \<and> selection_of src out \<and>
           (\<forall>k. nt = Some k \<longrightarrow> set (labels_of out) \<subseteq> set (top_types k (labels_of src)))"
proof (cases nt)
  case None
  then show ?thesis using selection_of_refl [OF assms] by (simp add: stage_max_types_def)
next
  case (Some k)
  let ?idxs = "filter (\<lambda>i. labels_of src ! i \<in> set (top_types k (labels_of src))) [0..<n]"
  obtain data labels lengths keys speakers where src: "src = (data, labels, lengths, keys, speakers)"
    by (cases src) auto
  have n: "length data = n" and lab: "labels = labels_of src"
    using assms by (simp_all add: src eqlen_def labels_of_def)
  have "stage_max_types nt src =
          keep_types 80 (top_types k (labels_of src)) src [0..<n] (pick src [])"
    unfolding stage_max_types_def Some src by (simp add: Let_def top_types_def n labels_of_def)
  also have "\<dots> = Inr (pick src ?idxs)"
    by (subst keep_types_pick [OF assms]) auto
  finally have eq: "stage_max_types nt src = Inr (pick src ?idxs)" .
  have sel: "selection_of src (pick src ?idxs)"
    by (rule selection_of_pick [OF assms]) auto
  have sub: "set (labels_of (pick src ?idxs)) \<subseteq> set (top_types k (labels_of src))"
    by (auto simp: labels_of_pick)
  show ?thesis using eq sel sub Some by simp
qed

lemma stage_min_tokens_per_type_sel:
  assumes "eqlen src n"
  shows "\<exists>out. stage_min_tokens_per_type nm src = Inr out \<and> selection_of src out"
proof (cases nm)
  case None
  then show ?thesis using selection_of_refl [OF assms] by (simp add: stage_min_tokens_per_type_def)
next
  case (Some k)
  let ?types = "map fst (filter (\<lambda>item. k \<le> int (snd item)) (Counter (labels_of src)))"
  let ?idxs = "filter (\<lambda>i. labels_of src ! i \<in> set ?types) [0..<n]"
  obtain data labels lengths keys speakers where src: "src = (data, labels, lengths, keys, speakers)"
    by (cases src) auto
  have n: "length data = n" using assms by (simp add: src eqlen_def)
  have "stage_min_tokens_per_type nm src = keep_types 137 ?types src [0..<n] (pick src [])"
    unfolding stage_min_tokens_per_type_def Some src by (simp add: Let_def n labels_of_def)
  also have "\<dots> = Inr (pick src ?idxs)"
    by (subst keep_types_pick [OF assms]) auto
  finally have eq: "stage_min_tokens_per_type nm src = Inr (pick src ?idxs)" .
  have sel: "selection_of src (pick src ?idxs)"
    by (rule selection_of_pick [OF assms]) auto
  show ?thesis using eq sel by simp
qed

lemma stage_max_tokens_sel:
  assumes "shuffle_ok R" and "eqlen src n"
  shows "\<exists>out g'. stage_max_tokens R nk (src, g) = Inr (out, g') \<and> selection_of src out"
proof (cases nk)
  case None
  then show ?thesis using selection_of_refl [OF assms(2)] by (simp add: stage_max_tokens_def)
next
  case (Some k)
  obtain indices g' where sh: "shuffle R g [0..<n] = (indices, g')"
    by (cases "shuffle R g [0..<n]") auto
  note perm = shuffle_ok_perm [OF assms(1) sh]
  let ?idxs = "py_slice None (Some k) indices"
  obtain data labels lengths keys speakers where src: "src = (data, labels, lengths, keys, speakers)"
    by (cases src) auto
  have n: "length data = n" using assms(2) by (simp add: src eqlen_def)
  have in_range: "set ?idxs \<subseteq> {..<n}" using set_py_slice [of None "Some k" indices] perm(2) by simp
  have "stage_max_tokens R nk (src, g) =
      (case take_entries src ?idxs (pick src []) of Inl e \<Rightarrow> Inl e | Inr out \<Rightarrow> Inr (out, g'))"
    unfolding stage_max_tokens_def Some src by (simp add: n sh [unfolded src])
  also have "\<dots> = Inr (pick src ?idxs, g')"
    by (subst take_entries_pick [OF assms(2) in_range]) simp
  finally have eq: "stage_max_tokens R nk (src, g) = Inr (pick src ?idxs, g')" .
  have sel: "selection_of src (pick src ?idxs)"
    by (rule selection_of_pick [OF assms(2) distinct_py_slice [OF perm(1)] in_range])
  show ?thesis using eq sel by simp
qed

subsection \<open>Counters\<close>

lemma counter_get_incr:
  "counter_get (counter_incr k c) k' = (if k' = k then Suc (counter_get c k) else counter_get c k')"
  by (induction c) (auto simp: counter_get_def)

lemma map_fst_counter_incr:
  "set (map fst (counter_incr k c)) = insert k (set (map fst c))"
  by (induction k c rule: counter_incr.induct) auto

lemma keys_counter_incr: "fst ` set (counter_incr k c) = insert k (fst ` set c)"
  using map_fst_counter_incr [of k c] by simp

lemma distinct_counter_incr:
  "distinct (map fst c) \<Longrightarrow> distinct (map fst (counter_incr k c))"
proof (induction c)
  case Nil
  show ?case by simp
next
  case (Cons p c)
  obtain k' n where p: "p = (k', n)" by (cases p)
  show ?case
    using Cons keys_counter_incr [of k c] unfolding p by (auto simp: image_iff)
qed

lemma counter_get_fold:
  "counter_get (fold counter_incr xs c) k = counter_get c k + count_list xs k"
  by (induction xs arbitrary: c) (auto simp: counter_get_incr)

lemma keys_fold_counter: "fst ` set (fold counter_incr xs c) = fst ` set c \<union> set xs"
  by (induction xs arbitrary: c) (auto simp: keys_counter_incr)

lemma distinct_fold_counter:
  "distinct (map fst c) \<Longrightarrow> distinct (map fst (fold counter_incr xs c))"
  by (induction xs arbitrary: c) (auto simp: distinct_counter_incr)

lemma counter_get_Counter: "counter_get (Counter xs) k = count_list xs k"
  unfolding Counter_def counter_get_fold by (simp add: counter_get_def)

lemma keys_Counter: "fst ` set (Counter xs) = set xs"
  by (simp add: Counter_def keys_fold_counter)

lemma distinct_Counter: "distinct (map fst (Counter xs))"
  by (simp add: Counter_def distinct_fold_counter)

lemma Counter_entry: "(k, n) \<in> set (Counter xs) \<Longrightarrow> n = count_list xs k"
proof -
  assume "(k, n) \<in> set (Counter xs)"
  then have "map_of (Counter xs) k = Some n" using distinct_Counter [of xs] by simp
  then have "counter_get (Counter xs) k = n" by (simp add: counter_get_def)
  then show ?thesis by (simp add: counter_get_Counter)
qed

lemma admitted_count:
  "counter_get c l + count_list (map (\<lambda>i. labels ! i) (admitted m labels is c)) l
     \<le> max (counter_get c l) (nat m)"
proof (induction "is" arbitrary: c)
  case Nil
  show ?case by simp
next
  case (Cons i rest)
  show ?case
  proof (cases "int (counter_get c (labels ! i)) < m")
    case False
    then show ?thesis using Cons.IH [of c] by simp
  next
    case True
    note ih = Cons.IH [of "counter_incr (labels ! i) c"]
    show ?thesis
    proof (cases "l = labels ! i")
      case same: True
      have "Suc (counter_get c l) \<le> nat m" using True same by simp
      then show ?thesis using True same ih by (simp add: counter_get_incr)
    next
      case other: False
      then show ?thesis using True ih by (simp add: counter_get_incr)
    qed
  qed
qed

lemma admitted_cap:
  "count_list (map (\<lambda>i. labels ! i) (admitted m labels is [])) l \<le> nat m"
  using admitted_count [of "[]" l labels m "is"] by (simp add: counter_get_def)

lemma stage_max_tokens_per_type_sel:
  assumes "shuffle_ok R" and "eqlen src n"
  shows "\<exists>out g'. stage_max_tokens_per_type R nc (src, g) = Inr (out, g') \<and> selection_of src out \<and>
           (\<forall>m. nc = Some m \<longrightarrow> (\<forall>l. count_list (labels_of out) l \<le> nat m))"
proof (cases nc)
  case None
  then show ?thesis using selection_of_refl [OF assms(2)] by (simp add: stage_max_tokens_per_type_def)
next
  case (Some m)
  obtain indices g' where sh: "shuffle R g [0..<n] = (indices, g')"
    by (cases "shuffle R g [0..<n]") auto
  note perm = shuffle_ok_perm [OF assms(1) sh]
  let ?idxs = "admitted m (labels_of src) indices []"
  obtain data labels lengths keys speakers where src: "src = (data, labels, lengths, keys, speakers)"
    by (cases src) auto
  have n: "length data = n" using assms(2) by (simp add: src eqlen_def)
  have ir: "set indices \<subseteq> {..<n}" using perm(2) by simp
  have in_range: "set ?idxs \<subseteq> {..<n}"
    using set_admitted [of m "labels_of src" indices "[]"] ir by blast
  have "stage_max_tokens_per_type R nc (src, g) =
      (case cap_per_type m src indices [] (pick src []) of
         Inl e \<Rightarrow> Inl e | Inr out \<Rightarrow> Inr (out, g'))"
    unfolding stage_max_tokens_per_type_def Some src by (simp add: n sh [unfolded src])
  also have "\<dots> = Inr (pick src ?idxs, g')"
    by (subst cap_per_type_pick [OF assms(2) ir]) simp
  finally have eq: "stage_max_tokens_per_type R nc (src, g) = Inr (pick src ?idxs, g')" .
  have sel: "selection_of src (pick src ?idxs)"
    by (rule selection_of_pick [OF assms(2) distinct_admitted [OF perm(1)] in_range])
  have cap: "\<forall>l. count_list (labels_of (pick src ?idxs)) l \<le> nat m"
    by (simp add: labels_of_pick admitted_cap)
  show ?thesis using eq sel cap Some by simp
qed

subsection \<open>The most common labels\<close>

lemma length_top_types: "length (top_types k labels) \<le> nat k"
  by (simp add: top_types_def most_common_def)

lemma distinct_top_types: "distinct (top_types k labels)"
proof -
  let ?s = "sort_key (\<lambda>item. - int (snd item)) (Counter labels)"
  have "mset (map fst ?s) = mset (map fst (Counter labels))" by simp
  then have "distinct (map fst ?s)"
    using distinct_Counter [of labels] mset_eq_imp_distinct_iff by blast
  then show ?thesis
    by (simp add: top_types_def most_common_def take_map [symmetric] distinct_take)
qed

lemma set_top_types: "set (top_types k labels) \<subseteq> set labels"
proof -
  have "set (top_types k labels) \<subseteq> fst ` set (Counter labels)"
    unfolding top_types_def most_common_def
    using set_take_subset [of "nat k" "sort_key (\<lambda>item. - int (snd item)) (Counter labels)"]
    by auto
  then show ?thesis by (simp add: keys_Counter)
qed

lemma top_types_most_frequent:
  assumes a: "a \<in> set (top_types k labels)" and b: "b \<in> set labels"
    and nb: "b \<notin> set (top_types k labels)"
  shows "count_list labels b \<le> count_list labels a"
proof -
  let ?f = "\<lambda>item :: 'a \<times> nat. - int (snd item)"
  let ?s = "sort_key ?f (Counter labels)"
  let ?n = "nat k"
  from a obtain va where va: "(a, va) \<in> set (take ?n ?s)"
    by (auto simp: top_types_def most_common_def)
  have "b \<in> fst ` set (Counter labels)" using b by (simp add: keys_Counter)
  then obtain vb where vb: "(b, vb) \<in> set ?s" by auto
  have "(b, vb) \<notin> set (take ?n ?s)"
    using nb by (force simp: top_types_def most_common_def)
  then have vbd: "(b, vb) \<in> set (drop ?n ?s)"
    using vb by (metis Un_iff append_take_drop_id set_append)
  have "sorted (map ?f (take ?n ?s @ drop ?n ?s))" by simp
  then have "\<forall>x\<in>set (take ?n ?s). \<forall>y\<in>set (drop ?n ?s). ?f x \<le> ?f y"
    unfolding map_append sorted_append by auto
  then have "vb \<le> va" using va vbd by fastforce
  moreover have "va = count_list labels a"
    using va by (intro Counter_entry) (auto dest: in_set_takeD)
  moreover have "vb = count_list labels b"
    using vb by (intro Counter_entry) auto
  ultimately show ?thesis by simp
qed

subsection \<open>The claims on filtering\<close>

text \<open>The four stages in sequence: each result is a selection of the one before.\<close>

lemma filter_data_sel:
  assumes ok: "shuffle_ok R" and len: "eqlen src n"
  shows "\<exists>out g'. filter_data R g0 src nm nt nk nc = Inr (out, g') \<and> selection_of src out \<and>
           (\<forall>k. nt = Some k \<longrightarrow> set (labels_of out) \<subseteq> set (top_types k (labels_of src))) \<and>
           (\<forall>m. nc = Some m \<longrightarrow> (\<forall>l. count_list (labels_of out) l \<le> nat m))"
proof -
  obtain s1 where s1: "stage_max_types nt src = Inr s1" "selection_of src s1"
      "\<forall>k. nt = Some k \<longrightarrow> set (labels_of s1) \<subseteq> set (top_types k (labels_of src))"
    using stage_max_types_sel [OF len, of nt] by blast
  obtain n1 where l1: "eqlen s1 n1" using selection_of_eqlen [OF s1(2)] by blast
  obtain s2 g2 where s2: "stage_max_tokens R nk (s1, seed R 1) = Inr (s2, g2)" "selection_of s1 s2"
    using stage_max_tokens_sel [OF ok l1, of nk "seed R 1"] by blast
  obtain n2 where l2: "eqlen s2 n2" using selection_of_eqlen [OF s2(2)] by blast
  obtain s3 where s3: "stage_min_tokens_per_type nm s2 = Inr s3" "selection_of s2 s3"
    using stage_min_tokens_per_type_sel [OF l2, of nm] by blast
  obtain n3 where l3: "eqlen s3 n3" using selection_of_eqlen [OF s3(2)] by blast
  obtain s4 g4 where s4: "stage_max_tokens_per_type R nc (s3, g2) = Inr (s4, g4)"
      "selection_of s3 s4" "\<forall>m. nc = Some m \<longrightarrow> (\<forall>l. count_list (labels_of s4) l \<le> nat m)"
    using stage_max_tokens_per_type_sel [OF ok l3, of nc g2] by blast
  have eq: "filter_data R g0 src nm nt nk nc = Inr (s4, g4)"
    by (simp add: filter_data_def s1(1) s2(1) s3(1) s4(1))
  have sel: "selection_of src s4"
    using s1(2) s2(2) s3(2) s4(2) selection_of_trans by blast
  have "set (labels_of s4) \<subseteq> set (labels_of s1)"
    using selection_of_labels [OF l1 s2(2)] selection_of_labels [OF l2 s3(2)]
      selection_of_labels [OF l3 s4(2)] by blast
  then have lab: "\<forall>k. nt = Some k \<longrightarrow> set (labels_of s4) \<subseteq> set (top_types k (labels_of src))"
    using s1(3) by blast
  show ?thesis using eq sel lab s4(3) by blast
qed

text \<open>Rotating a list permutes it; the examples below shuffle by reversing and rotating.\<close>

lemma mset_rotate: "mset (rotate n xs) = mset xs"
proof -
  define k where "k = n mod length xs"
  have "mset (rotate n xs) = mset (drop k xs) + mset (take k xs)"
    by (simp add: rotate_drop_take k_def)
  also have "\<dots> = mset (take k xs @ drop k xs)"
    by (simp only: mset_append add.commute)
  finally show ?thesis by simp
qed

text \<open>
  Claim C3. On a dataset, with a \<^verbatim>\<open>random.shuffle\<close> that permutes, the call returns, and
  whatever the other constraints are: with \<^verbatim>\<open>n_max_types = k\<close> the returned labels take at
  most \<open>k\<close> distinct values, all among the \<open>k\<close> first labels by descending count of the input
  (no label left out is more frequent than one returned); with
  \<^verbatim>\<open>n_max_tokens_per_type = m\<close> each label occurs at most \<open>m\<close> times. Both hold of the one
  result when both constraints are given. A negative bound counts as 0.
\<close>

theorem filter_data_bounds:
  assumes "shuffle_ok R" and "eqlen src n"
  shows "\<exists>out g'.
      filter_data R g0 src n_min_tokens_per_type n_max_types n_max_tokens n_max_tokens_per_type
        = Inr (out, g') \<and>
      (\<forall>k. n_max_types = Some k \<longrightarrow>
         card (set (labels_of out)) \<le> nat k \<and>
         set (labels_of out) \<subseteq> set (top_types k (labels_of src)) \<and>
         length (top_types k (labels_of src)) \<le> nat k \<and>
         (\<forall>a\<in>set (labels_of out). \<forall>b\<in>set (labels_of src).
            b \<notin> set (top_types k (labels_of src)) \<longrightarrow>
            count_list (labels_of src) b \<le> count_list (labels_of src) a)) \<and>
      (\<forall>m. n_max_tokens_per_type = Some m \<longrightarrow>
         (\<forall>l. count_list (labels_of out) l \<le> nat m))"
proof -
  from filter_data_sel [OF assms, of g0 n_min_tokens_per_type n_max_types n_max_tokens
      n_max_tokens_per_type]
  obtain out g' where r1:
      "filter_data R g0 src n_min_tokens_per_type n_max_types n_max_tokens n_max_tokens_per_type
        = Inr (out, g')"
    and r2: "\<forall>k. n_max_types = Some k \<longrightarrow>
               set (labels_of out) \<subseteq> set (top_types k (labels_of src))"
    and r3: "\<forall>m. n_max_tokens_per_type = Some m \<longrightarrow>
               (\<forall>l. count_list (labels_of out) l \<le> nat m)"
    by (elim exE conjE)
  show ?thesis
  proof (rule exI [where x = out], rule exI [where x = g'], intro conjI allI impI ballI)
    show "filter_data R g0 src n_min_tokens_per_type n_max_types n_max_tokens
        n_max_tokens_per_type = Inr (out, g')"
      by (rule r1)
  next
    fix k assume k: "n_max_types = Some k"
    have sub: "set (labels_of out) \<subseteq> set (top_types k (labels_of src))"
      using r2 k by simp
    have "card (set (labels_of out)) \<le> card (set (top_types k (labels_of src)))"
      by (rule card_mono [OF _ sub]) simp
    also have "\<dots> \<le> length (top_types k (labels_of src))" by (rule card_length)
    also have "\<dots> \<le> nat k" by (rule length_top_types)
    finally show "card (set (labels_of out)) \<le> nat k" .
  next
    fix k assume k: "n_max_types = Some k"
    show "set (labels_of out) \<subseteq> set (top_types k (labels_of src))"
      using r2 k by simp
  next
    fix k assume "n_max_types = Some k"
    show "length (top_types k (labels_of src)) \<le> nat k" by (rule length_top_types)
  next
    fix k a b
    assume k: "n_max_types = Some k" and a: "a \<in> set (labels_of out)"
      and b: "b \<in> set (labels_of src)" and nb: "b \<notin> set (top_types k (labels_of src))"
    have "a \<in> set (top_types k (labels_of src))" using r2 k a by auto
    then show "count_list (labels_of src) b \<le> count_list (labels_of src) a"
      using b nb by (rule top_types_most_frequent)
  next
    fix m l assume "n_max_tokens_per_type = Some m"
    then show "count_list (labels_of out) l \<le> nat m" using r3 by simp
  qed
qed

text \<open>
  The theorem at seven entries with labels a, b, a, c, b, a, d, at most two types and one
  token of each, for a generator whose shuffle reverses and rotates by its state.
\<close>

theorem filter_data_bounds_witness:
  "\<exists>out g'.
     filter_data \<lparr>seed = nat, shuffle = (\<lambda>g xs. (rotate g (rev xs), Suc g))\<rparr> 7
       ([0, 1, 2, 3, 4, 5, 6 :: nat], [''a'', ''b'', ''a'', ''c'', ''b'', ''a'', ''d''],
        [10, 11, 12, 13, 14, 15, 16 :: int], [20, 21, 22, 23, 24, 25, 26 :: nat],
        [30, 31, 32, 33, 34, 35, 36 :: nat])
       None (Some 2) None (Some 1) = Inr (out, g') \<and>
     out = ([4, 2], [''b'', ''a''], [14, 12], [24, 22], [34, 32]) \<and>
     card (set (labels_of out)) \<le> 2 \<and>
     set (labels_of out) \<subseteq> set [''a'', ''b''] \<and>
     (\<forall>l. count_list (labels_of out) l \<le> 1)"
proof -
  let ?R = "\<lparr>seed = nat, shuffle = (\<lambda>g xs. (rotate g (rev xs), Suc g))\<rparr> :: nat random_module"
  let ?D = "([0, 1, 2, 3, 4, 5, 6 :: nat], [''a'', ''b'', ''a'', ''c'', ''b'', ''a'', ''d''],
        [10, 11, 12, 13, 14, 15, 16 :: int], [20, 21, 22, 23, 24, 25, 26 :: nat],
        [30, 31, 32, 33, 34, 35, 36 :: nat])"
  have ok: "shuffle_ok ?R" by (simp add: shuffle_ok_def mset_rotate)
  have len: "eqlen ?D 7" by (simp add: eqlen_def)
  have ev: "filter_data ?R 7 ?D None (Some 2) None (Some 1) =
      Inr (([4, 2], [''b'', ''a''], [14, 12], [24, 22], [34, 32]), 2)"
    by code_simp
  have top: "top_types 2 (labels_of ?D) = [''a'', ''b'']"
    by code_simp
  from filter_data_bounds [OF ok len, of 7 None "Some 2" None "Some 1"]
  obtain out g' where r: "filter_data ?R 7 ?D None (Some 2) None (Some 1) = Inr (out, g')"
    and k: "\<forall>k. Some 2 = Some k \<longrightarrow>
         card (set (labels_of out)) \<le> nat k \<and>
         set (labels_of out) \<subseteq> set (top_types k (labels_of ?D)) \<and>
         length (top_types k (labels_of ?D)) \<le> nat k \<and>
         (\<forall>a\<in>set (labels_of out). \<forall>b\<in>set (labels_of ?D).
            b \<notin> set (top_types k (labels_of ?D)) \<longrightarrow>
            count_list (labels_of ?D) b \<le> count_list (labels_of ?D) a)"
    and m: "\<forall>m. Some 1 = Some m \<longrightarrow> (\<forall>l. count_list (labels_of out) l \<le> nat m)"
    by (elim exE conjE)
  have o: "out = ([4, 2], [''b'', ''a''], [14, 12], [24, 22], [34, 32])"
    using r unfolding ev by simp
  have c: "card (set (labels_of out)) \<le> 2"
    and s: "set (labels_of out) \<subseteq> set [''a'', ''b'']"
    using k [rule_format, of 2] unfolding top by simp_all
  have l: "\<forall>l. count_list (labels_of out) l \<le> 1"
    using m [rule_format, of 1] by simp
  show ?thesis
    using r o c s l by (intro exI [where x = out] exI [where x = g'] conjI)
qed

text \<open>The two shuffling stages in closed form, from the generator state they start in.\<close>

lemma stage_max_tokens_eq:
  assumes "shuffle_ok R" and "eqlen src n"
  shows "stage_max_tokens R (Some k) (src, g) =
           Inr (pick src (py_slice None (Some k) (fst (shuffle R g [0..<length (fst src)]))),
                snd (shuffle R g [0..<length (fst src)]))"
proof -
  obtain data labels lengths keys speakers where src: "src = (data, labels, lengths, keys, speakers)"
    by (cases src) auto
  have n: "length data = n" using assms(2) by (simp add: src eqlen_def)
  obtain indices g' where sh: "shuffle R g [0..<n] = (indices, g')"
    by (cases "shuffle R g [0..<n]") auto
  note perm = shuffle_ok_perm [OF assms(1) sh]
  let ?idxs = "py_slice None (Some k) indices"
  have in_range: "set ?idxs \<subseteq> {..<n}" using set_py_slice [of None "Some k" indices] perm(2) by simp
  have "stage_max_tokens R (Some k) (src, g) =
      (case take_entries src ?idxs (pick src []) of Inl e \<Rightarrow> Inl e | Inr out \<Rightarrow> Inr (out, g'))"
    unfolding stage_max_tokens_def src by (simp add: n sh [unfolded src])
  also have "\<dots> = Inr (pick src ?idxs, g')"
    by (subst take_entries_pick [OF assms(2) in_range]) simp
  finally show ?thesis by (simp add: src n sh)
qed

lemma stage_max_tokens_per_type_eq:
  assumes "shuffle_ok R" and "eqlen src n"
  shows "stage_max_tokens_per_type R (Some m) (src, g) =
           Inr (pick src (admitted m (labels_of src) (fst (shuffle R g [0..<length (fst src)])) []),
                snd (shuffle R g [0..<length (fst src)]))"
proof -
  obtain data labels lengths keys speakers where src: "src = (data, labels, lengths, keys, speakers)"
    by (cases src) auto
  have n: "length data = n" using assms(2) by (simp add: src eqlen_def)
  obtain indices g' where sh: "shuffle R g [0..<n] = (indices, g')"
    by (cases "shuffle R g [0..<n]") auto
  note perm = shuffle_ok_perm [OF assms(1) sh]
  have ir: "set indices \<subseteq> {..<n}" using perm(2) by simp
  have "stage_max_tokens_per_type R (Some m) (src, g) =
      (case cap_per_type m src indices [] (pick src []) of
         Inl e \<Rightarrow> Inl e | Inr out \<Rightarrow> Inr (out, g'))"
    unfolding stage_max_tokens_per_type_def src by (simp add: n sh [unfolded src])
  also have "\<dots> = Inr (pick src (admitted m (labels_of src) indices []), g')"
    by (subst cap_per_type_pick [OF assms(2) ir]) simp
  finally show ?thesis by (simp add: src n sh)
qed

text \<open>
  Claim C4. The result does not depend on the state the generator was in before the call,
  so two calls on the same lists and constraints return the same five lists, in the same
  order, and leave the generator in the same state. The generator is seeded once, on
  line 64: on a dataset, the shuffle of \<^verbatim>\<open>n_max_tokens\<close> starts from the seeded state, and
  the shuffle of \<^verbatim>\<open>n_max_tokens_per_type\<close> from the state the first shuffle left (from the
  seeded state when there was none), not from a fresh seed.
\<close>

theorem filter_data_deterministic:
  "filter_data R ga src n_min_tokens_per_type n_max_types n_max_tokens n_max_tokens_per_type =
   filter_data R gb src n_min_tokens_per_type n_max_types n_max_tokens n_max_tokens_per_type \<and>
   (shuffle_ok R \<and> eqlen src n \<longrightarrow>
    (\<exists>s1 s2 s3 out g1 g2.
       stage_max_types n_max_types src = Inr s1 \<and>
       (case n_max_tokens of
          None \<Rightarrow> s2 = s1 \<and> g1 = seed R 1
        | Some k \<Rightarrow>
            s2 = pick s1 (py_slice None (Some k)
                   (fst (shuffle R (seed R 1) [0..<length (fst s1)]))) \<and>
            g1 = snd (shuffle R (seed R 1) [0..<length (fst s1)])) \<and>
       stage_min_tokens_per_type n_min_tokens_per_type s2 = Inr s3 \<and>
       (case n_max_tokens_per_type of
          None \<Rightarrow> out = s3 \<and> g2 = g1
        | Some m \<Rightarrow>
            out = pick s3 (admitted m (labels_of s3)
                    (fst (shuffle R g1 [0..<length (fst s3)])) []) \<and>
            g2 = snd (shuffle R g1 [0..<length (fst s3)])) \<and>
       filter_data R ga src n_min_tokens_per_type n_max_types n_max_tokens n_max_tokens_per_type
         = Inr (out, g2)))"
proof (rule conjI)
  show "filter_data R ga src n_min_tokens_per_type n_max_types n_max_tokens n_max_tokens_per_type =
    filter_data R gb src n_min_tokens_per_type n_max_types n_max_tokens n_max_tokens_per_type"
    unfolding filter_data_def ..
next
  let ?nm = n_min_tokens_per_type and ?nt = n_max_types and ?nk = n_max_tokens
    and ?nc = n_max_tokens_per_type
  show "shuffle_ok R \<and> eqlen src n \<longrightarrow>
    (\<exists>s1 s2 s3 out g1 g2.
       stage_max_types ?nt src = Inr s1 \<and>
       (case ?nk of
          None \<Rightarrow> s2 = s1 \<and> g1 = seed R 1
        | Some k \<Rightarrow>
            s2 = pick s1 (py_slice None (Some k)
                   (fst (shuffle R (seed R 1) [0..<length (fst s1)]))) \<and>
            g1 = snd (shuffle R (seed R 1) [0..<length (fst s1)])) \<and>
       stage_min_tokens_per_type ?nm s2 = Inr s3 \<and>
       (case ?nc of
          None \<Rightarrow> out = s3 \<and> g2 = g1
        | Some m \<Rightarrow>
            out = pick s3 (admitted m (labels_of s3)
                    (fst (shuffle R g1 [0..<length (fst s3)])) []) \<and>
            g2 = snd (shuffle R g1 [0..<length (fst s3)])) \<and>
       filter_data R ga src ?nm ?nt ?nk ?nc = Inr (out, g2))"
  proof (rule impI)
    assume h: "shuffle_ok R \<and> eqlen src n"
    then have ok: "shuffle_ok R" and len: "eqlen src n" by simp_all
    from stage_max_types_sel [OF len, of ?nt]
    obtain s1 where s1: "stage_max_types ?nt src = Inr s1" and sel1: "selection_of src s1"
      by (elim exE conjE)
    obtain n1 where l1: "eqlen s1 n1" using selection_of_eqlen [OF sel1] by (elim exE)
    define s2 where "s2 = (case ?nk of None \<Rightarrow> s1
      | Some k \<Rightarrow> pick s1 (py_slice None (Some k)
                   (fst (shuffle R (seed R 1) [0..<length (fst s1)]))))"
    define g1 where "g1 = (case ?nk of None \<Rightarrow> seed R 1
      | Some k \<Rightarrow> snd (shuffle R (seed R 1) [0..<length (fst s1)]))"
    have st2: "stage_max_tokens R ?nk (s1, seed R 1) = Inr (s2, g1)"
    proof (cases ?nk)
      case None
      then show ?thesis by (simp add: stage_max_tokens_def s2_def g1_def)
    next
      case (Some k)
      then show ?thesis by (simp add: stage_max_tokens_eq [OF ok l1] s2_def g1_def)
    qed
    have c2: "case ?nk of
          None \<Rightarrow> s2 = s1 \<and> g1 = seed R 1
        | Some k \<Rightarrow>
            s2 = pick s1 (py_slice None (Some k)
                   (fst (shuffle R (seed R 1) [0..<length (fst s1)]))) \<and>
            g1 = snd (shuffle R (seed R 1) [0..<length (fst s1)])"
      by (cases ?nk) (simp_all add: s2_def g1_def)
    obtain n2 where l2: "eqlen s2 n2"
    proof (cases ?nk)
      case None
      then have "eqlen s2 n1" using l1 by (simp add: s2_def)
      then show ?thesis by (rule that)
    next
      case (Some k)
      then have "s2 = pick s1 (py_slice None (Some k)
                   (fst (shuffle R (seed R 1) [0..<length (fst s1)])))"
        by (simp add: s2_def)
      then have "eqlen s2 (length (py_slice None (Some k)
                   (fst (shuffle R (seed R 1) [0..<length (fst s1)]))))"
        by (simp add: eqlen_pick)
      then show ?thesis by (rule that)
    qed
    from stage_min_tokens_per_type_sel [OF l2, of ?nm]
    obtain s3 where s3: "stage_min_tokens_per_type ?nm s2 = Inr s3" and sel3: "selection_of s2 s3"
      by (elim exE conjE)
    obtain n3 where l3: "eqlen s3 n3" using selection_of_eqlen [OF sel3] by (elim exE)
    define out where "out = (case ?nc of None \<Rightarrow> s3
      | Some m \<Rightarrow> pick s3 (admitted m (labels_of s3)
                    (fst (shuffle R g1 [0..<length (fst s3)])) []))"
    define g2 where "g2 = (case ?nc of None \<Rightarrow> g1
      | Some m \<Rightarrow> snd (shuffle R g1 [0..<length (fst s3)]))"
    have st4: "stage_max_tokens_per_type R ?nc (s3, g1) = Inr (out, g2)"
    proof (cases ?nc)
      case None
      then show ?thesis by (simp add: stage_max_tokens_per_type_def out_def g2_def)
    next
      case (Some m)
      then show ?thesis by (simp add: stage_max_tokens_per_type_eq [OF ok l3] out_def g2_def)
    qed
    have c4: "case ?nc of
          None \<Rightarrow> out = s3 \<and> g2 = g1
        | Some m \<Rightarrow>
            out = pick s3 (admitted m (labels_of s3)
                    (fst (shuffle R g1 [0..<length (fst s3)])) []) \<and>
            g2 = snd (shuffle R g1 [0..<length (fst s3)])"
      by (cases ?nc) (simp_all add: out_def g2_def)
    have eq: "filter_data R ga src ?nm ?nt ?nk ?nc = Inr (out, g2)"
      by (simp add: filter_data_def s1 st2 s3 st4)
    show "\<exists>s1 s2 s3 out g1 g2.
       stage_max_types ?nt src = Inr s1 \<and>
       (case ?nk of
          None \<Rightarrow> s2 = s1 \<and> g1 = seed R 1
        | Some k \<Rightarrow>
            s2 = pick s1 (py_slice None (Some k)
                   (fst (shuffle R (seed R 1) [0..<length (fst s1)]))) \<and>
            g1 = snd (shuffle R (seed R 1) [0..<length (fst s1)])) \<and>
       stage_min_tokens_per_type ?nm s2 = Inr s3 \<and>
       (case ?nc of
          None \<Rightarrow> out = s3 \<and> g2 = g1
        | Some m \<Rightarrow>
            out = pick s3 (admitted m (labels_of s3)
                    (fst (shuffle R g1 [0..<length (fst s3)])) []) \<and>
            g2 = snd (shuffle R g1 [0..<length (fst s3)])) \<and>
       filter_data R ga src ?nm ?nt ?nk ?nc = Inr (out, g2)"
      using s1 c2 s3 c4 eq
      by (intro exI [where x = s1] exI [where x = s2] exI [where x = s3] exI [where x = out]
          exI [where x = g1] exI [where x = g2] conjI)
  qed
qed

text \<open>
  The theorem at the seven entries with both shuffling stages active, for a generator
  whose shuffle rotates by its state: the second shuffle runs in state 2 and leaves 3.
\<close>

theorem filter_data_deterministic_witness:
  "filter_data \<lparr>seed = nat, shuffle = (\<lambda>g xs. (rotate g (rev xs), Suc g))\<rparr> 7
     ([0, 1, 2, 3, 4, 5, 6 :: nat], [''a'', ''b'', ''a'', ''c'', ''b'', ''a'', ''d''],
      [10, 11, 12, 13, 14, 15, 16 :: int], [20, 21, 22, 23, 24, 25, 26 :: nat],
      [30, 31, 32, 33, 34, 35, 36 :: nat])
     None None (Some 5) (Some 1)
     = Inr (([3, 4, 5], [''c'', ''b'', ''a''], [13, 14, 15], [23, 24, 25], [33, 34, 35]), 3) \<and>
   filter_data \<lparr>seed = nat, shuffle = (\<lambda>g xs. (rotate g (rev xs), Suc g))\<rparr> 0
     ([0, 1, 2, 3, 4, 5, 6 :: nat], [''a'', ''b'', ''a'', ''c'', ''b'', ''a'', ''d''],
      [10, 11, 12, 13, 14, 15, 16 :: int], [20, 21, 22, 23, 24, 25, 26 :: nat],
      [30, 31, 32, 33, 34, 35, 36 :: nat])
     None None (Some 5) (Some 1)
     = Inr (([3, 4, 5], [''c'', ''b'', ''a''], [13, 14, 15], [23, 24, 25], [33, 34, 35]), 3)"
proof -
  let ?R = "\<lparr>seed = nat, shuffle = (\<lambda>g xs. (rotate g (rev xs), Suc g))\<rparr> :: nat random_module"
  let ?D = "([0, 1, 2, 3, 4, 5, 6 :: nat], [''a'', ''b'', ''a'', ''c'', ''b'', ''a'', ''d''],
      [10, 11, 12, 13, 14, 15, 16 :: int], [20, 21, 22, 23, 24, 25, 26 :: nat],
      [30, 31, 32, 33, 34, 35, 36 :: nat])"
  let ?S = "([5, 4, 3, 2, 1 :: nat], [''a'', ''b'', ''c'', ''a'', ''b''],
      [15, 14, 13, 12, 11 :: int], [25, 24, 23, 22, 21 :: nat], [35, 34, 33, 32, 31 :: nat])"
  let ?O = "([3, 4, 5 :: nat], [''c'', ''b'', ''a''], [13, 14, 15 :: int], [23, 24, 25 :: nat],
      [33, 34, 35 :: nat])"
  note inst = filter_data_deterministic [where R = ?R and ga = 7 and gb = 0 and src = ?D
      and n_min_tokens_per_type = None and n_max_types = None and n_max_tokens = "Some 5"
      and n_max_tokens_per_type = "Some 1" and n = 7]
  have h: "shuffle_ok ?R \<and> eqlen ?D 7" by (simp add: shuffle_ok_def mset_rotate eqlen_def)
  from inst [THEN conjunct2, THEN mp, OF h]
  obtain s1 s2 s3 out g1 g2 where
    a: "stage_max_types None ?D = Inr s1"
    and b: "case Some 5 of
          None \<Rightarrow> s2 = s1 \<and> g1 = seed ?R 1
        | Some k \<Rightarrow>
            s2 = pick s1 (py_slice None (Some k)
                   (fst (shuffle ?R (seed ?R 1) [0..<length (fst s1)]))) \<and>
            g1 = snd (shuffle ?R (seed ?R 1) [0..<length (fst s1)])"
    and c: "stage_min_tokens_per_type None s2 = Inr s3"
    and d: "case Some 1 of
          None \<Rightarrow> out = s3 \<and> g2 = g1
        | Some m \<Rightarrow>
            out = pick s3 (admitted m (labels_of s3)
                    (fst (shuffle ?R g1 [0..<length (fst s3)])) []) \<and>
            g2 = snd (shuffle ?R g1 [0..<length (fst s3)])"
    and e: "filter_data ?R 7 ?D None None (Some 5) (Some 1) = Inr (out, g2)"
    by (elim exE conjE)
  have s1: "s1 = ?D" using a by (simp add: stage_max_types_def)
  have v2: "pick ?D (py_slice None (Some 5) (fst (shuffle ?R (seed ?R 1) [0..<length (fst ?D)])))
      = ?S"
    by code_simp
  have w2: "snd (shuffle ?R (seed ?R 1) [0..<length (fst ?D)]) = 2" by simp
  have s2: "s2 = ?S" and g1: "g1 = 2" using b unfolding s1 option.case v2 w2 by simp_all
  have s3: "s3 = ?S" using c unfolding s2 by (simp add: stage_min_tokens_per_type_def)
  have v4: "pick ?S (admitted 1 (labels_of ?S) (fst (shuffle ?R 2 [0..<length (fst ?S)])) []) = ?O"
    by code_simp
  have w4: "snd (shuffle ?R 2 [0..<length (fst ?S)]) = 3" by simp
  have out: "out = ?O" and g2: "g2 = 3" using d unfolding s3 g1 option.case v4 w4 by simp_all
  have r7: "filter_data ?R 7 ?D None None (Some 5) (Some 1) = Inr (?O, 3)"
    using e unfolding out g2 .
  have r0: "filter_data ?R 0 ?D None None (Some 5) (Some 1) = Inr (?O, 3)"
    using inst [THEN conjunct1] r7 by simp
  show ?thesis using r7 r0 by (rule conjI)
qed

text \<open>
  Claim C5. With all four constraints \<^verbatim>\<open>None\<close> the call returns the five lists it was given,
  unchanged; the generator is left seeded.
\<close>

theorem filter_data_no_constraints:
  "filter_data R g0 src None None None None = Inr (src, seed R 1)"
  by (simp add: filter_data_def stage_max_types_def stage_max_tokens_def
      stage_min_tokens_per_type_def stage_max_tokens_per_type_def)

text \<open>What a call of \<^verbatim>\<open>load_data_from_npz\<close> that returns has returned.\<close>

lemma load_data_from_npz_Inr:
  assumes "load_data_from_npz npz ml = Inr (x, labels, lengths, keys, speakers)"
  shows "x = map (\<lambda>k. the (map_of npz k)) (retained_keys npz ml)"
    and "labels = map (\<lambda>k. split_on (CHR ''_'') k ! 0) (retained_keys npz ml)"
    and "lengths = map (\<lambda>k. int (shape0 (the (map_of npz k)))) (retained_keys npz ml)"
    and "keys = retained_keys npz ml"
    and "speakers = map (\<lambda>k. split_on (CHR ''_'') k ! 1) (retained_keys npz ml)"
proof -
  let ?ks = "retained_keys npz ml"
  have ok: "\<not> (\<exists>k\<in>set ?ks. CHR ''_'' \<notin> set k)"
  proof
    assume "\<exists>k\<in>set ?ks. CHR ''_'' \<notin> set k"
    then have "load_data_from_npz npz ml = Inl (IndexError 38)"
      unfolding load_data_from_npz_eq Let_def by (rule if_P)
    then show False using assms by simp
  qed
  have ne: "?ks \<noteq> []"
  proof
    assume "?ks = []"
    then have "load_data_from_npz npz ml = Inl (IndexError 44)"
      unfolding load_data_from_npz_eq Let_def if_not_P [OF ok] by (rule if_P)
    then show False using assms by simp
  qed
  have "load_data_from_npz npz ml =
      Inr (map (\<lambda>k. the (map_of npz k)) ?ks, map (\<lambda>k. split_on (CHR ''_'') k ! 0) ?ks,
           map (\<lambda>k. int (shape0 (the (map_of npz k)))) ?ks, ?ks,
           map (\<lambda>k. split_on (CHR ''_'') k ! 1) ?ks)"
    unfolding load_data_from_npz_eq Let_def if_not_P [OF ok] if_not_P [OF ne] ..
  then have "(x, labels, lengths, keys, speakers) =
      (map (\<lambda>k. the (map_of npz k)) ?ks, map (\<lambda>k. split_on (CHR ''_'') k ! 0) ?ks,
           map (\<lambda>k. int (shape0 (the (map_of npz k)))) ?ks, ?ks,
           map (\<lambda>k. split_on (CHR ''_'') k ! 1) ?ks)"
    using assms by simp
  then show "x = map (\<lambda>k. the (map_of npz k)) ?ks"
    and "labels = map (\<lambda>k. split_on (CHR ''_'') k ! 0) ?ks"
    and "lengths = map (\<lambda>k. int (shape0 (the (map_of npz k)))) ?ks"
    and "keys = ?ks"
    and "speakers = map (\<lambda>k. split_on (CHR ''_'') k ! 1) ?ks"
    by simp_all
qed

text \<open>
  Claim C9. The five lists that \<^verbatim>\<open>load_data_from_npz\<close> returns have one length. On five
  lists of one length, with a \<^verbatim>\<open>random.shuffle\<close> that permutes and any constraints,
  \<^verbatim>\<open>filter_data\<close> returns five lists that are the input lists read at one common list of
  positions, so that the \<open>i\<close>-th elements of the five come from one input position; no
  position is taken twice.
\<close>

theorem parallel_lists:
  "(\<forall>x labels lengths keys speakers.
      load_data_from_npz npz min_length = Inr (x, labels, lengths, keys, speakers) \<longrightarrow>
      length labels = length x \<and> length lengths = length x \<and> length keys = length x \<and>
      length speakers = length x) \<and>
   (shuffle_ok R \<and> length labels = length data \<and> length lengths = length data \<and>
    length keys = length data \<and> length speakers = length data \<longrightarrow>
    (\<exists>idxs g'.
       filter_data R g0 (data, labels, lengths, keys, speakers)
         n_min_tokens_per_type n_max_types n_max_tokens n_max_tokens_per_type
         = Inr ((map (\<lambda>i. data ! i) idxs, map (\<lambda>i. labels ! i) idxs,
                 map (\<lambda>i. lengths ! i) idxs, map (\<lambda>i. keys ! i) idxs,
                 map (\<lambda>i. speakers ! i) idxs), g') \<and>
       distinct idxs \<and> (\<forall>i\<in>set idxs. i < length data)))"
proof (rule conjI)
  show "\<forall>x labels lengths keys speakers.
      load_data_from_npz npz min_length = Inr (x, labels, lengths, keys, speakers) \<longrightarrow>
      length labels = length x \<and> length lengths = length x \<and> length keys = length x \<and>
      length speakers = length x"
  proof (intro allI impI)
    fix x labels lengths keys speakers
    assume r: "load_data_from_npz npz min_length = Inr (x, labels, lengths, keys, speakers)"
    show "length labels = length x \<and> length lengths = length x \<and> length keys = length x \<and>
      length speakers = length x"
      unfolding load_data_from_npz_Inr [OF r] by simp
  qed
next
  let ?src = "(data, labels, lengths, keys, speakers)"
  show "shuffle_ok R \<and> length labels = length data \<and> length lengths = length data \<and>
    length keys = length data \<and> length speakers = length data \<longrightarrow>
    (\<exists>idxs g'.
       filter_data R g0 ?src n_min_tokens_per_type n_max_types n_max_tokens n_max_tokens_per_type
         = Inr ((map (\<lambda>i. data ! i) idxs, map (\<lambda>i. labels ! i) idxs,
                 map (\<lambda>i. lengths ! i) idxs, map (\<lambda>i. keys ! i) idxs,
                 map (\<lambda>i. speakers ! i) idxs), g') \<and>
       distinct idxs \<and> (\<forall>i\<in>set idxs. i < length data))"
  proof (rule impI)
    assume h: "shuffle_ok R \<and> length labels = length data \<and> length lengths = length data \<and>
      length keys = length data \<and> length speakers = length data"
    have ok: "shuffle_ok R" using h by simp
    have len: "eqlen ?src (length data)" using h by (simp add: eqlen_def)
    from filter_data_sel [OF ok len, of g0 n_min_tokens_per_type n_max_types n_max_tokens
        n_max_tokens_per_type]
    obtain out g' where r: "filter_data R g0 ?src
           n_min_tokens_per_type n_max_types n_max_tokens n_max_tokens_per_type = Inr (out, g')"
      and sel: "selection_of ?src out"
      by (elim exE conjE)
    from sel obtain idxs where d: "distinct idxs" and s: "set idxs \<subseteq> {..<length (fst ?src)}"
      and o: "out = pick ?src idxs"
      unfolding selection_of_def by (elim exE conjE)
    have o': "out = (map (\<lambda>i. data ! i) idxs, map (\<lambda>i. labels ! i) idxs,
                 map (\<lambda>i. lengths ! i) idxs, map (\<lambda>i. keys ! i) idxs,
                 map (\<lambda>i. speakers ! i) idxs)"
      unfolding o pick_def prod.case ..
    have s': "\<forall>i\<in>set idxs. i < length data" using s by auto
    show "\<exists>idxs g'.
       filter_data R g0 ?src n_min_tokens_per_type n_max_types n_max_tokens n_max_tokens_per_type
         = Inr ((map (\<lambda>i. data ! i) idxs, map (\<lambda>i. labels ! i) idxs,
                 map (\<lambda>i. lengths ! i) idxs, map (\<lambda>i. keys ! i) idxs,
                 map (\<lambda>i. speakers ! i) idxs), g') \<and>
       distinct idxs \<and> (\<forall>i\<in>set idxs. i < length data)"
      using r [unfolded o'] d s' by (intro exI [where x = idxs] exI [where x = g'] conjI)
  qed
qed

text \<open>The theorem at an archive of two members and at the seven entries, three stages active.\<close>

theorem parallel_lists_witness:
  "(\<exists>x labels lengths keys speakers.
      load_data_from_npz
        [(''b_s2_x'', \<lparr>shape1 = 1, rows = [[1], [2 :: int]]\<rparr>),
         (''a_s1'', \<lparr>shape1 = 1, rows = [[3]]\<rparr>)] None
        = Inr (x, labels, lengths, keys, speakers) \<and>
      length labels = length x \<and> length lengths = length x \<and> length keys = length x \<and>
      length speakers = length x) \<and>
   (\<exists>idxs g'.
      filter_data \<lparr>seed = nat, shuffle = (\<lambda>g xs. (rotate g (rev xs), Suc g))\<rparr> 7
        ([0, 1, 2, 3, 4, 5, 6 :: nat], [''a'', ''b'', ''a'', ''c'', ''b'', ''a'', ''d''],
         [10, 11, 12, 13, 14, 15, 16 :: int], [20, 21, 22, 23, 24, 25, 26 :: nat],
         [30, 31, 32, 33, 34, 35, 36 :: nat])
        (Some 2) None (Some 5) (Some 1)
        = Inr ((map (\<lambda>i. [0, 1, 2, 3, 4, 5, 6] ! i) idxs,
                map (\<lambda>i. [''a'', ''b'', ''a'', ''c'', ''b'', ''a'', ''d''] ! i) idxs,
                map (\<lambda>i. [10, 11, 12, 13, 14, 15, 16] ! i) idxs,
                map (\<lambda>i. [20, 21, 22, 23, 24, 25, 26] ! i) idxs,
                map (\<lambda>i. [30, 31, 32, 33, 34, 35, 36] ! i) idxs), g') \<and>
      distinct idxs \<and> (\<forall>i\<in>set idxs. i < 7))"
proof -
  let ?R = "\<lparr>seed = nat, shuffle = (\<lambda>g xs. (rotate g (rev xs), Suc g))\<rparr> :: nat random_module"
  let ?npz = "[(''b_s2_x'', \<lparr>shape1 = 1, rows = [[1], [2 :: int]]\<rparr>),
         (''a_s1'', \<lparr>shape1 = 1, rows = [[3]]\<rparr>)]"
  note inst = parallel_lists [of ?npz None ?R
      "[''a'', ''b'', ''a'', ''c'', ''b'', ''a'', ''d'']" "[0, 1, 2, 3, 4, 5, 6 :: nat]"
      "[10, 11, 12, 13, 14, 15, 16 :: int]" "[20, 21, 22, 23, 24, 25, 26 :: nat]"
      "[30, 31, 32, 33, 34, 35, 36 :: nat]" 7 "Some 2" None "Some 5" "Some 1"]
  have ev: "load_data_from_npz ?npz None =
      Inr ([\<lparr>shape1 = 1, rows = [[3]]\<rparr>, \<lparr>shape1 = 1, rows = [[1], [2]]\<rparr>], [''a'', ''b''],
           [1, 2], [''a_s1'', ''b_s2_x''], [''s1'', ''s2''])"
    by code_simp
  have ok: "shuffle_ok ?R" by (simp add: shuffle_ok_def mset_rotate)
  have l7: "length [0, 1, 2, 3, 4, 5, 6 :: nat] = 7" by simp
  have h: "shuffle_ok ?R \<and>
      length [''a'', ''b'', ''a'', ''c'', ''b'', ''a'', ''d''] = length [0, 1, 2, 3, 4, 5, 6 :: nat] \<and>
      length [10, 11, 12, 13, 14, 15, 16 :: int] = length [0, 1, 2, 3, 4, 5, 6 :: nat] \<and>
      length [20, 21, 22, 23, 24, 25, 26 :: nat] = length [0, 1, 2, 3, 4, 5, 6 :: nat] \<and>
      length [30, 31, 32, 33, 34, 35, 36 :: nat] = length [0, 1, 2, 3, 4, 5, 6 :: nat]"
    using ok by simp
  have a: "\<exists>x labels lengths keys speakers.
      load_data_from_npz ?npz None = Inr (x, labels, lengths, keys, speakers) \<and>
      length labels = length x \<and> length lengths = length x \<and> length keys = length x \<and>
      length speakers = length x"
    using inst [THEN conjunct1] ev by blast
  have b: "\<exists>idxs g'.
      filter_data ?R 7
        ([0, 1, 2, 3, 4, 5, 6 :: nat], [''a'', ''b'', ''a'', ''c'', ''b'', ''a'', ''d''],
         [10, 11, 12, 13, 14, 15, 16 :: int], [20, 21, 22, 23, 24, 25, 26 :: nat],
         [30, 31, 32, 33, 34, 35, 36 :: nat])
        (Some 2) None (Some 5) (Some 1)
        = Inr ((map (\<lambda>i. [0, 1, 2, 3, 4, 5, 6] ! i) idxs,
                map (\<lambda>i. [''a'', ''b'', ''a'', ''c'', ''b'', ''a'', ''d''] ! i) idxs,
                map (\<lambda>i. [10, 11, 12, 13, 14, 15, 16] ! i) idxs,
                map (\<lambda>i. [20, 21, 22, 23, 24, 25, 26] ! i) idxs,
                map (\<lambda>i. [30, 31, 32, 33, 34, 35, 36] ! i) idxs), g') \<and>
      distinct idxs \<and> (\<forall>i\<in>set idxs. i < 7)"
    by (rule inst [THEN conjunct2, THEN mp, OF h, unfolded l7])
  show ?thesis using a b by (rule conjI)
qed

end
